theory Spec2Isabelle
  imports Complex_Main "HOL-Library.Sublist" "HOL-Library.Log_Nat"
begin

section \<open>Numbers\<close>

text \<open>
  A JavaScript \<open>number\<close> is an IEEE 754 double. It is modelled by its value, a \<open>real\<close>,
  and the result of an arithmetic operation is rounded by \<open>fl\<close>: to the nearest number
  with a significand of 53 bits, a tie going to the even significand. The exponent is
  not bounded here, so \<open>fl\<close> is the rounding of doubles for magnitudes from \<open>2^-1022\<close>
  up to \<open>2^1024\<close>; NaN and the infinities are not represented.
\<close>

definition round_even :: "real \<Rightarrow> int" where
  "round_even m =
     (let f = \<lfloor>m\<rfloor>; d = m - of_int f
      in if d < 1 / 2 then f else if 1 / 2 < d then f + 1 else if even f then f else f + 1)"

text \<open>For \<open>x > 0\<close>, the exponent \<open>e\<close> with \<open>2^e \<le> x < 2^(e+1)\<close>.\<close>

definition ilog2 :: "real \<Rightarrow> int" where
  "ilog2 x = (if 1 \<le> x then bitlen \<lfloor>x\<rfloor> - 1 else - bitlen (\<lceil>1 / x\<rceil> - 1))"

definition fl :: "real \<Rightarrow> real" where
  "fl x =
     (if x = 0 then 0
      else (let e = ilog2 \<bar>x\<bar> - 52
            in sgn x * (of_int (round_even (\<bar>x\<bar> / 2 powi e)) * 2 powi e)))"

section \<open>Strings\<close>

text \<open>
  A JavaScript string is a sequence of UTF-16 code units; a code unit is modelled as a
  natural number (below 65536). \<open>lit\<close> gives the code units of a literal of ASCII
  characters.
\<close>

type_synonym jstring = "nat list"

definition lit :: "string \<Rightarrow> jstring" where
  "lit s = map of_char s"

text \<open>
  \<open>String.prototype.trim\<close> strips white space and line terminators at both ends: TAB,
  LF, VT, FF, CR, SPACE, U+00A0, U+1680, U+2000 to U+200A, U+2028, U+2029, U+202F,
  U+205F, U+3000 and U+FEFF.
\<close>

definition isWhiteSpace :: "nat \<Rightarrow> bool" where
  "isWhiteSpace c =
     ((9 \<le> c \<and> c \<le> 13) \<or> c = 32 \<or> c = 160 \<or> c = 5760 \<or> (8192 \<le> c \<and> c \<le> 8202) \<or>
      c = 8232 \<or> c = 8233 \<or> c = 8239 \<or> c = 8287 \<or> c = 12288 \<or> c = 65279)"

definition trim :: "jstring \<Rightarrow> jstring" where
  "trim s = rev (dropWhile isWhiteSpace (rev (dropWhile isWhiteSpace s)))"

section \<open>Data model of the wheel variant\<close>

text \<open>
  The wheel component keeps eight React state cells. \<open>Date.now()\<close> and the random draw
  are inputs of the handlers that read them.
\<close>

datatype team = product | engineering

record DecisionItem =
  id_item :: int
  decision :: jstring
  weight :: real
  team :: team

text \<open>The closure handed to \<open>setTimeout\<close> in \<open>handleDecide\<close>; it captures the selected item.\<close>

datatype callback = StopSpin DecisionItem

record app_state =
  decisionText :: jstring
  weight_st :: real
  team_st :: team
  betterDecision :: bool
  decisionItems :: "DecisionItem list"
  notification :: jstring
  isSpinning :: bool
  rotation :: real
  timers :: "(nat \<times> callback) list"

text \<open>
  \<open>timers\<close> is the timing collaborator: each entry is a callback together with the delay
  in milliseconds it was scheduled with.
\<close>

definition init_state :: app_state where
  "init_state =
     \<lparr>decisionText = [], weight_st = 1, team_st = product, betterDecision = False,
      decisionItems = [], notification = [], isSpinning = False, rotation = 0,
      timers = []\<rparr>"

datatype error = ValidationError | InsufficientItemsError

text \<open>
  What a handler did, next to the state it leaves: it reported an error, appended an item,
  selected an item with its segment bounds, or returned without any effect.
\<close>

datatype outcome =
  Failed error
  | Added
  | Decided DecisionItem real real
  | Silent

section \<open>Item registry\<close>

text \<open>
  The three \<open>onChange\<close> handlers of the form. The weight field stores
  \<open>Math.max(1, parseInt(e.target.value) || 1)\<close>; the argument \<open>parsed\<close> is the result of
  \<open>parseInt(e.target.value)\<close>, \<open>None\<close> for NaN and \<open>Some n\<close> for the integer \<open>n\<close>.
\<close>

definition changeDecisionText :: "jstring \<Rightarrow> app_state \<Rightarrow> app_state" where
  "changeDecisionText v s = s\<lparr>decisionText := v\<rparr>"

definition changeWeight :: "int option \<Rightarrow> app_state \<Rightarrow> app_state" where
  "changeWeight parsed s =
     s\<lparr>weight_st :=
         max 1 (case parsed of None \<Rightarrow> 1 | Some n \<Rightarrow> if n = 0 then 1 else of_int n)\<rparr>"

definition changeTeam :: "team \<Rightarrow> app_state \<Rightarrow> app_state" where
  "changeTeam v s = s\<lparr>team_st := v\<rparr>"

definition add_error_text :: jstring where
  "add_error_text =
     lit ''Error: Decision text and a positive weight (1 or more) are required!''"

text \<open>
  \<open>handleAddDecision\<close>. \<open>weight || 1\<close> replaces a falsy weight (zero) by 1 before the
  check; \<open>now\<close> is the value of \<open>Date.now()\<close>.
\<close>

definition handleAddDecision :: "int \<Rightarrow> app_state \<Rightarrow> outcome \<times> app_state" where
  "handleAddDecision now s =
     (let text = trim (decisionText s);
          currentWeight = (if weight_st s = 0 then 1 else weight_st s)
      in if text = [] \<or> currentWeight \<le> 0
         then (Failed ValidationError, s\<lparr>notification := add_error_text\<rparr>)
         else
           (let newItem = \<lparr>id_item = now, decision = text, weight = currentWeight,
                           team = team_st s\<rparr>
            in (Added,
                s\<lparr>decisionItems := decisionItems s @ [newItem],
                  decisionText := [], weight_st := 1, team_st := product\<rparr>)))"

text \<open>\<open>handleRemoveDecision\<close>: keep the items whose id differs.\<close>

definition handleRemoveDecision :: "int \<Rightarrow> app_state \<Rightarrow> app_state" where
  "handleRemoveDecision i s =
     s\<lparr>decisionItems := filter (\<lambda>item. id_item item \<noteq> i) (decisionItems s)\<rparr>"

text \<open>
  The registry operation \<open>add(label, weight, category)\<close> as the component offers it: the
  label, the weight and the team are entered in the form, which runs the three
  \<open>onChange\<close> handlers, and the submit event runs \<open>handleAddDecision\<close>. (Before the
  event, the browser checks the attributes \<open>required\<close>, \<open>min\<close> and \<open>max\<close> of the
  fields; that check is not part of the handlers and is not modelled.)
\<close>

definition add ::
  "int \<Rightarrow> jstring \<Rightarrow> int option \<Rightarrow> team \<Rightarrow> app_state \<Rightarrow> outcome \<times> app_state" where
  "add now label parsed cat s =
     handleAddDecision now (changeTeam cat (changeWeight parsed (changeDecisionText label s)))"

definition count :: "app_state \<Rightarrow> nat" where
  "count s = length (decisionItems s)"

section \<open>Weighted selection and geometry\<close>

definition decide_error_text :: jstring where
  "decide_error_text =
     lit ''Error: Please add at least one decision item for each team before deciding!''"

text \<open>The local variables of the selection loop of \<open>handleDecide\<close>.\<close>

record walk_state =
  randomNum :: real
  selectedItem :: "DecisionItem option"
  cumulativeWeight :: real
  winningEndDegree :: real
  winningStartDegree :: real

text \<open>
  The \<open>reduce\<close> that computes \<open>totalWeight\<close>: with the filter on, product items
  contribute 0. (The weights of the registry are integers, see
  \<open>run_weights_integer\<close> below, so the sum is an integer and exact while it stays
  below \<open>2^53\<close>, see \<open>fl_of_int\<close>.)
\<close>

definition totalWeight :: "bool \<Rightarrow> DecisionItem list \<Rightarrow> real" where
  "totalWeight bd items =
     foldl (\<lambda>sum item. sum + (if bd \<and> team item = product then 0 else weight item)) 0 items"

text \<open>
  The \<open>for ... of\<close> loop. \<open>continue\<close> skips a filtered item, \<open>break\<close> leaves the
  loop with the state of that iteration. The quotient, the product by 360 and the sum
  with \<open>cumulativeWeight\<close> are rounded. The subtraction \<open>randomNum -= item.weight\<close> is
  written without rounding: for a double \<open>randomNum\<close> below \<open>2^53\<close> and an integer
  weight the difference is a double when it is positive (\<open>subtraction_exact\<close> below),
  and rounding never changes the sign (\<open>fl_nonpos_iff\<close>), so the comparison with 0 is
  the one of the source. (With \<open>tw = 0\<close> the quotient is 0 here and not a number in
  JavaScript; the theorems below only use \<open>tw > 0\<close>.)
\<close>

fun walk :: "bool \<Rightarrow> real \<Rightarrow> DecisionItem list \<Rightarrow> walk_state \<Rightarrow> walk_state" where
  "walk bd tw [] st = st"
| "walk bd tw (item # rest) st =
     (if bd \<and> team item = product then walk bd tw rest st
      else
        (let segmentDegrees = fl (fl (weight item / tw) * 360);
             st1 = st\<lparr>winningStartDegree := cumulativeWeight st,
                      winningEndDegree := fl (cumulativeWeight st + segmentDegrees),
                      randomNum := randomNum st - weight item\<rparr>
         in if randomNum st1 \<le> 0 then st1\<lparr>selectedItem := Some item\<rparr>
            else walk bd tw rest
                   (st1\<lparr>cumulativeWeight := fl (cumulativeWeight st1 + segmentDegrees)\<rparr>)))"

definition walk_init :: "real \<Rightarrow> walk_state" where
  "walk_init r =
     \<lparr>randomNum = r, selectedItem = None, cumulativeWeight = 0, winningEndDegree = 0,
      winningStartDegree = 0\<rparr>"

definition fullSpins :: real where
  "fullSpins = 5"

text \<open>
  The target rotation computed from the winning bounds, written in exact arithmetic (for
  bounds such as 90 and 180 every intermediate value is a double).
\<close>

definition finalDegree :: "real \<Rightarrow> real \<Rightarrow> real" where
  "finalDegree winningStart winningEnd =
     (let targetCenterDegree = (winningStart + winningEnd) / 2
      in (360 - targetCenterDegree) + fullSpins * 360)"

text \<open>
  Line 142, \<open>Math.random() * totalWeight\<close>: the rounded product of the value \<open>u\<close> of
  \<open>Math.random()\<close> and the total weight.
\<close>

definition draw :: "real \<Rightarrow> real \<Rightarrow> real" where
  "draw u tw = fl (u * tw)"

text \<open>
  \<open>handleDecide\<close>. The argument \<open>r\<close> is the draw that line 142 stores in
  \<open>randomNum\<close>, that is \<open>draw u tw\<close> for the value \<open>u\<close> of \<open>Math.random()\<close>; it is
  in \<open>[0, tw)\<close>, see \<open>draw_in_range\<close> below. The timer is scheduled with the delay
  that the source passes to \<open>setTimeout\<close>.
\<close>

definition handleDecide :: "real \<Rightarrow> app_state \<Rightarrow> outcome \<times> app_state" where
  "handleDecide r s =
     (let productDecisions = length (filter (\<lambda>d. team d = product) (decisionItems s))
      in if productDecisions < 1 \<or> int (length (decisionItems s)) - int productDecisions < 1
         then (Failed InsufficientItemsError, s\<lparr>notification := decide_error_text\<rparr>)
         else
           (let s1 = s\<lparr>notification := []\<rparr>;
                tw = totalWeight (betterDecision s) (decisionItems s);
                st = walk (betterDecision s) tw (decisionItems s) (walk_init r)
            in case selectedItem st of
                 None \<Rightarrow> (Silent, s1)
               | Some item \<Rightarrow>
                   (Decided item (winningStartDegree st) (winningEndDegree st),
                    s1\<lparr>rotation := finalDegree (winningStartDegree st) (winningEndDegree st),
                       timers := timers s1 @ [(0, StopSpin item)]\<rparr>)))"

text \<open>The body of the scheduled callback.\<close>

fun run_callback :: "callback \<Rightarrow> app_state \<Rightarrow> app_state" where
  "run_callback (StopSpin item) s =
     s\<lparr>isSpinning := False, notification := lit ''You should '' @ decision item @ lit ''!''\<rparr>"

text \<open>The oldest pending timer fires.\<close>

definition fire :: "app_state \<Rightarrow> app_state" where
  "fire s = (case timers s of [] \<Rightarrow> s | (d, cb) # rest \<Rightarrow> run_callback cb (s\<lparr>timers := rest\<rparr>))"

text \<open>The \<open>disabled\<close> attribute of the decide button.\<close>

definition decide_disabled :: "app_state \<Rightarrow> bool" where
  "decide_disabled s = (decisionItems s = [] \<or> isSpinning s)"

text \<open>
  The \<open>transition\<close> entry of the style that \<open>generateWheelStyle\<close> returns for a
  non-empty registry.
\<close>

definition wheel_transition :: "app_state \<Rightarrow> string" where
  "wheel_transition s =
     (if isSpinning s then ''transform 5s cubic-bezier(0.25, 0.1, 0.25, 1)'' else ''none'')"

text \<open>The checkbox toggles the filter.\<close>

definition toggleBetterDecision :: "app_state \<Rightarrow> app_state" where
  "toggleBetterDecision s = s\<lparr>betterDecision := \<not> betterDecision s\<rparr>"

subsection \<open>Derived notions used to state the properties\<close>

text \<open>The eligible items in registry order: the ones the loop does not skip.\<close>

definition eligible :: "bool \<Rightarrow> DecisionItem list \<Rightarrow> DecisionItem list" where
  "eligible bd items = filter (\<lambda>item. \<not> (bd \<and> team item = product)) items"

text \<open>
  The pair \<open>(winningStartDegree, winningEndDegree)\<close> that each iteration of the loop
  assigns, for a loop that starts with \<open>cumulativeWeight = cum\<close> and is not left early.
\<close>

fun segments :: "real \<Rightarrow> DecisionItem list \<Rightarrow> real \<Rightarrow> (real \<times> real) list" where
  "segments tw [] cum = []"
| "segments tw (item # rest) cum =
     (let segmentDegrees = fl (fl (weight item / tw) * 360)
      in (cum, fl (cum + segmentDegrees)) # segments tw rest (fl (cum + segmentDegrees)))"

text \<open>
  Following the specification's words: the running angular position before and after
  adding \<open>(weight / totalWeight) * 360\<close> degrees, in exact arithmetic.
\<close>

fun ideal_segments :: "real \<Rightarrow> DecisionItem list \<Rightarrow> real \<Rightarrow> (real \<times> real) list" where
  "ideal_segments tw [] cum = []"
| "ideal_segments tw (item # rest) cum =
     (cum, cum + weight item / tw * 360)
       # ideal_segments tw rest (cum + weight item / tw * 360)"

text \<open>The sum of the weights of the first \<open>k\<close> items.\<close>

definition prefix_weight :: "DecisionItem list \<Rightarrow> nat \<Rightarrow> real" where
  "prefix_weight es k = sum_list (map weight (take k es))"

text \<open>
  Following the specification's words: walk the eligible items in order, subtracting each
  weight from \<open>r\<close>; the index of the first item at which the running value is
  non-positive.
\<close>

fun first_nonpositive :: "real \<Rightarrow> DecisionItem list \<Rightarrow> nat option" where
  "first_nonpositive r [] = None"
| "first_nonpositive r (item # rest) =
     (if r - weight item \<le> 0 then Some 0
      else map_option Suc (first_nonpositive (r - weight item) rest))"

text \<open>
  The probability that a draw, uniform on \<open>[0, W)\<close>, falls into a set \<open>S\<close> that is an
  interval inside \<open>[0, W)\<close>: the length of the interval over \<open>W\<close>.
\<close>

definition interval_probability :: "real \<Rightarrow> real set \<Rightarrow> real" where
  "interval_probability W S = (Sup S - Inf S) / W"

section \<open>Binary variant\<close>

record binary_state =
  inputValue :: jstring
  notification_bin :: jstring

definition submit_error_text :: jstring where
  "submit_error_text = lit ''Error: Please ask a question so the universe can decide!''"

text \<open>
  \<open>toLowerCase\<close>, written out for the letters A to Z; the source applies it to the two
  literals \<open>SHOULD\<close> and \<open>SHOULDNT\<close> only.
\<close>

definition lower_unit :: "nat \<Rightarrow> nat" where
  "lower_unit c = (if 65 \<le> c \<and> c \<le> 90 then c + 32 else c)"

definition toLowerCase :: "jstring \<Rightarrow> jstring" where
  "toLowerCase s = map lower_unit s"

text \<open>
  \<open>handleSubmit\<close>; \<open>u\<close> is the value of \<open>Math.random()\<close>. The first component is the
  error, or the message that was built.
\<close>

definition handleSubmit :: "real \<Rightarrow> binary_state \<Rightarrow> (error + jstring) \<times> binary_state" where
  "handleSubmit u s =
     (let decisionTopic = trim (inputValue s)
      in if decisionTopic = []
         then (Inl ValidationError, s\<lparr>notification_bin := submit_error_text\<rparr>)
         else
           (let decision = (if u < 1 / 2 then lit ''SHOULD'' else lit ''SHOULDNT'');
                message = lit ''The universe has decided: You '' @ toLowerCase decision
                          @ lit '' '' @ decisionTopic @ lit ''!''
            in (Inr message, s\<lparr>notification_bin := message, inputValue := []\<rparr>)))"

text \<open>A message contains a phrase, the case of the letters A to Z ignored.\<close>

definition contains_ci :: "jstring \<Rightarrow> jstring \<Rightarrow> bool" where
  "contains_ci phrase message = sublist (toLowerCase phrase) (toLowerCase message)"

section \<open>Sequences of registry operations\<close>

datatype op = Add int jstring "int option" team | Remove int

fun apply_op :: "op \<Rightarrow> app_state \<Rightarrow> app_state" where
  "apply_op (Add now label parsed cat) s = snd (add now label parsed cat s)"
| "apply_op (Remove i) s = handleRemoveDecision i s"

fun run :: "op list \<Rightarrow> app_state \<Rightarrow> app_state" where
  "run [] s = s"
| "run (x # xs) s = run xs (apply_op x s)"

text \<open>The clock readings of the add operations, in order.\<close>

fun add_times :: "op list \<Rightarrow> int list" where
  "add_times [] = []"
| "add_times (Add now label parsed cat # xs) = now # add_times xs"
| "add_times (Remove i # xs) = add_times xs"

section \<open>Events of the wheel component\<close>

text \<open>
  The user's actions and the timer, as far as they touch more than the notification text:
  adding and removing an item, the decide button, the filter checkbox, and the oldest
  pending timer firing.
\<close>

datatype event =
  AddItem int jstring "int option" team
  | RemoveItem int
  | DecideNow real
  | ToggleFilter
  | TimerFires

fun step :: "event \<Rightarrow> app_state \<Rightarrow> app_state" where
  "step (AddItem now label parsed cat) s = snd (add now label parsed cat s)"
| "step (RemoveItem i) s = handleRemoveDecision i s"
| "step (DecideNow r) s = snd (handleDecide r s)"
| "step ToggleFilter s = toggleBetterDecision s"
| "step TimerFires s = fire s"

fun steps :: "event list \<Rightarrow> app_state \<Rightarrow> app_state" where
  "steps [] s = s"
| "steps (ev # evs) s = steps evs (step ev s)"

section \<open>Concrete registries\<close>

text \<open>One product item of weight 1 and one engineering item of weight 3.\<close>

definition example_items :: "DecisionItem list" where
  "example_items =
     [\<lparr>id_item = 1, decision = lit ''ship it'', weight = 1, team = product\<rparr>,
      \<lparr>id_item = 2, decision = lit ''refactor'', weight = 3, team = engineering\<rparr>]"

definition example_state :: app_state where
  "example_state = init_state\<lparr>decisionItems := example_items\<rparr>"

text \<open>A registry with the weights 1, 4 and 2.\<close>

definition uneven_items :: "DecisionItem list" where
  "uneven_items =
     [\<lparr>id_item = 1, decision = lit ''ship it'', weight = 1, team = product\<rparr>,
      \<lparr>id_item = 2, decision = lit ''refactor'', weight = 4, team = engineering\<rparr>,
      \<lparr>id_item = 3, decision = lit ''write tests'', weight = 2, team = engineering\<rparr>]"

definition uneven_state :: app_state where
  "uneven_state = init_state\<lparr>decisionItems := uneven_items\<rparr>"

text \<open>A registry with the weights 2 and 1.\<close>

definition boundary_items :: "DecisionItem list" where
  "boundary_items =
     [\<lparr>id_item = 1, decision = lit ''ship it'', weight = 2, team = product\<rparr>,
      \<lparr>id_item = 2, decision = lit ''refactor'', weight = 1, team = engineering\<rparr>]"

definition boundary_state :: app_state where
  "boundary_state = init_state\<lparr>decisionItems := boundary_items\<rparr>"

text \<open>A registry without an engineering item.\<close>

definition product_only_state :: app_state where
  "product_only_state =
     init_state\<lparr>decisionItems :=
       [\<lparr>id_item = 1, decision = lit ''ship it'', weight = 2, team = product\<rparr>,
        \<lparr>id_item = 2, decision = lit ''sell it'', weight = 1, team = product\<rparr>]\<rparr>"

text \<open>The topic of the specification's example, typed with surrounding blanks.\<close>

definition pizza_state :: binary_state where
  "pizza_state = \<lparr>inputValue = lit '' eat pizza '', notification_bin = []\<rparr>"

section \<open>Facts about the rounding\<close>

lemma round_even_close: "\<bar>of_int (round_even m) - m\<bar> \<le> 1 / 2"
  unfolding round_even_def Let_def by (auto simp: abs_le_iff)

lemma round_even_of_int: "round_even (of_int k) = k"
  by (simp add: round_even_def)

lemma round_even_range: "\<lfloor>m\<rfloor> \<le> round_even m \<and> round_even m \<le> \<lfloor>m\<rfloor> + 1"
  by (simp add: round_even_def Let_def)

lemma round_even_mono:
  assumes "m \<le> m'"
  shows "round_even m \<le> round_even m'"
proof (cases "\<lfloor>m\<rfloor> = \<lfloor>m'\<rfloor>")
  case True
  with assms show ?thesis by (auto simp: round_even_def Let_def)
next
  case False
  with assms have "\<lfloor>m\<rfloor> + 1 \<le> \<lfloor>m'\<rfloor>" using floor_mono [OF assms] by linarith
  with round_even_range [of m] round_even_range [of m'] show ?thesis by linarith
qed

lemma ilog2_bounds:
  assumes "0 < x"
  shows "2 powi (ilog2 x) \<le> x \<and> x < 2 powi (ilog2 x + 1)"
proof (cases "1 \<le> x")
  case True
  define n where "n = \<lfloor>x\<rfloor>"
  have n1: "1 \<le> n" using True by (simp add: n_def)
  then have n0: "0 < n" by simp
  from bitlen_bounds [OF n0] have b: "2 ^ nat (bitlen n - 1) \<le> n" "n < 2 ^ nat (bitlen n)"
    by simp_all
  have b1: "1 \<le> bitlen n" using n0 by (simp add: bitlen_alt_def)
  have e: "ilog2 x = bitlen n - 1" using True by (simp add: ilog2_def n_def)
  have "2 powi (bitlen n - 1) = (2::real) ^ nat (bitlen n - 1)"
    using b1 by (simp add: power_int_def)
  also have "\<dots> = of_int (2 ^ nat (bitlen n - 1))" by simp
  also have "\<dots> \<le> of_int n" using b(1) by (simp only: of_int_le_iff)
  also have "\<dots> \<le> x" by (simp add: n_def)
  finally have lo: "2 powi (ilog2 x) \<le> x" by (simp add: e)
  have "n + 1 \<le> 2 ^ nat (bitlen n)" using b(2) by simp
  then have "of_int (n + 1) \<le> (of_int (2 ^ nat (bitlen n)) :: real)" by (simp only: of_int_le_iff)
  moreover have "x < of_int (n + 1)" by (simp add: n_def)
  ultimately have "x < 2 ^ nat (bitlen n)" by simp
  also have "\<dots> = 2 powi (bitlen n)" using b1 by (simp add: power_int_def)
  finally have "x < 2 powi (ilog2 x + 1)" by (simp add: e)
  with lo show ?thesis by simp
next
  case False
  define c where "c = \<lceil>1 / x\<rceil>"
  define n where "n = c - 1"
  have inv: "1 < 1 / x" using False assms by simp
  have c2: "2 \<le> c" using inv by (simp add: c_def le_ceiling_iff)
  have n0: "0 < n" using c2 by (simp add: n_def)
  from bitlen_bounds [OF n0] have b: "2 ^ nat (bitlen n - 1) \<le> n" "n < 2 ^ nat (bitlen n)"
    by simp_all
  have b1: "1 \<le> bitlen n" using n0 by (simp add: bitlen_alt_def)
  have e: "ilog2 x = - bitlen n" using False by (simp add: ilog2_def n_def c_def)
  have up: "1 / x \<le> of_int c" by (simp add: c_def)
  have low: "of_int n < 1 / x" unfolding n_def c_def by linarith
  have "c \<le> 2 ^ nat (bitlen n)" using b(2) by (simp add: n_def)
  then have "of_int c \<le> (of_int (2 ^ nat (bitlen n)) :: real)"
    by (simp only: of_int_le_iff)
  then have "of_int c \<le> (2::real) ^ nat (bitlen n)" by simp
  with up have "1 / x \<le> 2 ^ nat (bitlen n)" by linarith
  then have "1 / 2 ^ nat (bitlen n) \<le> x" using assms
    by (simp add: field_simps)
  moreover have "2 powi (- bitlen n) = 1 / (2::real) ^ nat (bitlen n)"
    using b1 by (simp add: power_int_def field_simps)
  ultimately have lo: "2 powi (ilog2 x) \<le> x" by (simp add: e)
  have "(of_int (2 ^ nat (bitlen n - 1)) :: real) \<le> of_int n"
    using b(1) by (simp only: of_int_le_iff)
  then have "(2::real) ^ nat (bitlen n - 1) \<le> of_int n" by simp
  with low have "2 ^ nat (bitlen n - 1) < 1 / x" by linarith
  then have "x < 1 / 2 ^ nat (bitlen n - 1)" using assms by (simp add: field_simps)
  moreover have "2 powi (- bitlen n + 1) = 1 / (2::real) ^ nat (bitlen n - 1)"
    using b1 by (simp add: power_int_def field_simps nat_diff_distrib)
  ultimately have "x < 2 powi (ilog2 x + 1)" by (simp add: e)
  with lo show ?thesis by simp
qed

lemma ilog2_unique:
  assumes "0 < x" "2 powi e \<le> x" "x < 2 powi (e + 1)"
  shows "ilog2 x = e"
proof -
  from ilog2_bounds [OF assms(1)] have b: "2 powi (ilog2 x) \<le> x" "x < 2 powi (ilog2 x + 1)"
    by simp_all
  have lt: "i < j" if "(2::real) powi i < 2 powi j" for i j :: int
  proof (rule ccontr)
    assume "\<not> i < j"
    then have "j \<le> i" by simp
    then have "(2::real) powi j \<le> 2 powi i" by (rule power_int_increasing) simp
    with that show False by simp
  qed
  have "(2::real) powi e < 2 powi (ilog2 x + 1)" using assms(2) b(2) by linarith
  then have 1: "e < ilog2 x + 1" by (rule lt)
  have "(2::real) powi (ilog2 x) < 2 powi (e + 1)" using assms(3) b(1) by linarith
  then have 2: "ilog2 x < e + 1" by (rule lt)
  from 1 2 show ?thesis by simp
qed

lemma fl_0: "fl 0 = 0"
  by (simp add: fl_def)

lemma fl_minus: "fl (- x) = - fl x"
  by (simp add: fl_def Let_def)

text \<open>The scaled significand of a positive number lies between \<open>2^52\<close> and \<open>2^53\<close>.\<close>

lemma significand_bounds:
  assumes "0 < x"
  shows "2 ^ 52 \<le> x / 2 powi (ilog2 x - 52) \<and> x / 2 powi (ilog2 x - 52) < 2 ^ 53"
proof -
  from ilog2_bounds [OF assms] have b: "2 powi (ilog2 x) \<le> x" "x < 2 powi (ilog2 x + 1)"
    by simp_all
  have p: "(0::real) < 2 powi (ilog2 x - 52)" by simp
  have 1: "(2::real) ^ 52 * 2 powi (ilog2 x - 52) = 2 powi (ilog2 x)"
    using power_int_add [of "2::real" 52 "ilog2 x - 52"] by simp
  have 2: "(2::real) ^ 53 * 2 powi (ilog2 x - 52) = 2 powi (ilog2 x + 1)"
    using power_int_add [of "2::real" 53 "ilog2 x - 52"] by (simp add: add.commute)
  show ?thesis using b p 1 2 by (simp add: pos_le_divide_eq pos_divide_less_eq)
qed

lemma fl_pos_eq:
  "0 < x \<Longrightarrow> fl x = of_int (round_even (x / 2 powi (ilog2 x - 52))) * 2 powi (ilog2 x - 52)"
  by (simp add: fl_def Let_def)

lemma fl_error_pos:
  assumes "0 < x"
  shows "\<bar>fl x - x\<bar> \<le> x / 2 ^ 53"
proof -
  let ?u = "(2::real) powi (ilog2 x - 52)"
  let ?m = "x / ?u"
  have u: "0 < ?u" by simp
  have "\<bar>of_int (round_even ?m) - ?m\<bar> \<le> 1 / 2" by (rule round_even_close)
  then have "\<bar>of_int (round_even ?m) - ?m\<bar> * ?u \<le> 1 / 2 * ?u"
    using u by (simp only: mult_le_cancel_right_pos)
  moreover have "\<bar>of_int (round_even ?m) - ?m\<bar> * ?u = \<bar>fl x - x\<bar>"
  proof -
    have "\<bar>of_int (round_even ?m) - ?m\<bar> * ?u = \<bar>(of_int (round_even ?m) - ?m) * ?u\<bar>"
      using u by (simp add: abs_mult)
    also have "(of_int (round_even ?m) - ?m) * ?u = of_int (round_even ?m) * ?u - x"
      using u by (simp add: left_diff_distrib)
    finally show ?thesis using assms by (simp add: fl_pos_eq)
  qed
  ultimately have e: "\<bar>fl x - x\<bar> \<le> ?u / 2" by simp
  from significand_bounds [OF assms] have "2 ^ 52 \<le> ?m" by simp
  then have "2 ^ 52 * ?u \<le> x" using u by (simp add: pos_le_divide_eq)
  then have "?u / 2 \<le> x / 2 ^ 53" by simp
  with e show ?thesis by linarith
qed

lemma fl_pos_bounds:
  assumes "0 < x"
  shows "2 powi (ilog2 x) \<le> fl x \<and> fl x \<le> 2 powi (ilog2 x + 1)"
proof -
  let ?u = "(2::real) powi (ilog2 x - 52)"
  let ?m = "x / ?u"
  have u: "0 < ?u" by simp
  from significand_bounds [OF assms] have m: "2 ^ 52 \<le> ?m" "?m < 2 ^ 53" by simp_all
  have "round_even (of_int (2 ^ 52)) \<le> round_even ?m"
    by (rule round_even_mono) (use m in simp)
  then have lo: "(2::int) ^ 52 \<le> round_even ?m" by (simp only: round_even_of_int)
  have "round_even ?m \<le> round_even (of_int (2 ^ 53))"
    by (rule round_even_mono) (use m in simp)
  then have hi: "round_even ?m \<le> (2::int) ^ 53" by (simp only: round_even_of_int)
  have 1: "(2::real) ^ 52 * ?u = 2 powi (ilog2 x)"
    using power_int_add [of "2::real" 52 "ilog2 x - 52"] by simp
  have 2: "(2::real) ^ 53 * ?u = 2 powi (ilog2 x + 1)"
    using power_int_add [of "2::real" 53 "ilog2 x - 52"] by (simp add: add.commute)
  have "(of_int (2 ^ 52) :: real) \<le> of_int (round_even ?m)" using lo by (simp only: of_int_le_iff)
  then have "(2::real) ^ 52 \<le> of_int (round_even ?m)" by simp
  then have "(2::real) ^ 52 * ?u \<le> of_int (round_even ?m) * ?u"
    using u by (simp only: mult_le_cancel_right_pos)
  then have A: "2 powi (ilog2 x) \<le> of_int (round_even ?m) * ?u" unfolding 1 .
  have "(of_int (round_even ?m) :: real) \<le> of_int (2 ^ 53)"
    using hi by (simp only: of_int_le_iff)
  then have "(of_int (round_even ?m) :: real) \<le> 2 ^ 53" by simp
  then have "of_int (round_even ?m) * ?u \<le> (2::real) ^ 53 * ?u"
    using u by (simp only: mult_le_cancel_right_pos)
  then have B: "of_int (round_even ?m) * ?u \<le> 2 powi (ilog2 x + 1)" unfolding 2 .
  show ?thesis unfolding fl_pos_eq [OF assms] using A B by blast
qed

lemma fl_pos: "0 < x \<Longrightarrow> 0 < fl x"
  using fl_pos_bounds [of x] zero_less_power_int [of "2::real" "ilog2 x"] by linarith

lemma fl_mono_pos:
  assumes "0 < x" "x \<le> y"
  shows "fl x \<le> fl y"
proof -
  have y: "0 < y" using assms by simp
  from ilog2_bounds [OF assms(1)] ilog2_bounds [OF y]
  have b: "2 powi (ilog2 x) \<le> x" "y < 2 powi (ilog2 y + 1)" by simp_all
  have "(2::real) powi (ilog2 x) < 2 powi (ilog2 y + 1)" using b assms(2) by linarith
  then have le: "ilog2 x \<le> ilog2 y"
  proof -
    have "\<not> ilog2 y + 1 \<le> ilog2 x"
    proof
      assume "ilog2 y + 1 \<le> ilog2 x"
      then have "(2::real) powi (ilog2 y + 1) \<le> 2 powi (ilog2 x)"
        by (rule power_int_increasing) simp
      with \<open>(2::real) powi (ilog2 x) < 2 powi (ilog2 y + 1)\<close> show False by simp
    qed
    then show ?thesis by simp
  qed
  show ?thesis
  proof (cases "ilog2 x = ilog2 y")
    case True
    let ?u = "(2::real) powi (ilog2 y - 52)"
    have u: "0 < ?u" by simp
    have "x / ?u \<le> y / ?u" using assms(2) u by (simp add: divide_right_mono)
    then have "round_even (x / ?u) \<le> round_even (y / ?u)" by (rule round_even_mono)
    then have "(of_int (round_even (x / ?u)) :: real) \<le> of_int (round_even (y / ?u))"
      by (simp only: of_int_le_iff)
    then have "of_int (round_even (x / ?u)) * ?u \<le> of_int (round_even (y / ?u)) * ?u"
      using u by (simp only: mult_le_cancel_right_pos)
    then show ?thesis using assms(1) y True by (simp add: fl_pos_eq)
  next
    case False
    with le have "ilog2 x + 1 \<le> ilog2 y" by simp
    then have "(2::real) powi (ilog2 x + 1) \<le> 2 powi (ilog2 y)"
      by (rule power_int_increasing) simp
    with fl_pos_bounds [OF assms(1)] fl_pos_bounds [OF y] show ?thesis by linarith
  qed
qed

lemma fl_mono: "x \<le> y \<Longrightarrow> fl x \<le> fl y"
proof -
  assume xy: "x \<le> y"
  consider "0 < x" | "x = 0" "0 < y" | "x = 0" "y = 0" | "x < 0" "0 < y" | "x < 0" "y = 0"
    | "x < 0" "y < 0"
    using xy by linarith
  then show ?thesis
  proof cases
    case 1
    then show ?thesis using xy by (rule fl_mono_pos)
  next
    case 2
    then show ?thesis using fl_pos [of y] by (simp add: fl_0)
  next
    case 3
    then show ?thesis by simp
  next
    case 4
    then show ?thesis using fl_pos [of y] fl_pos [of "- x"] by (simp add: fl_minus)
  next
    case 5
    then show ?thesis using fl_pos [of "- x"] by (simp add: fl_minus fl_0)
  next
    case 6
    then have "fl (- y) \<le> fl (- x)" using xy by (intro fl_mono_pos) simp_all
    then show ?thesis by (simp add: fl_minus)
  qed
qed

lemma fl_nonneg: "0 \<le> x \<Longrightarrow> 0 \<le> fl x"
  using fl_mono [of 0 x] by (simp add: fl_0)

lemma fl_idem_pos:
  assumes "0 < x"
  shows "fl (fl x) = fl x"
proof -
  let ?e = "ilog2 x"
  let ?u = "(2::real) powi (?e - 52)"
  let ?k = "round_even (x / ?u)"
  have u: "0 < ?u" by simp
  have fx: "fl x = of_int ?k * ?u" using assms by (rule fl_pos_eq)
  have pos: "0 < fl x" using assms by (rule fl_pos)
  from fl_pos_bounds [OF assms] have b: "2 powi ?e \<le> fl x" "fl x \<le> 2 powi (?e + 1)"
    by simp_all
  show ?thesis
  proof (cases "fl x = 2 powi (?e + 1)")
    case True
    have e: "ilog2 (fl x) = ?e + 1"
    proof (rule ilog2_unique [OF pos])
      show "2 powi (?e + 1) \<le> fl x" using True by simp
      have "(2::real) powi (?e + 1) < 2 powi (?e + 1 + 1)"
        by (rule power_int_strict_increasing) simp_all
      then show "fl x < 2 powi (?e + 1 + 1)" using True by simp
    qed
    have "fl x / 2 powi (ilog2 (fl x) - 52) = 2 powi (?e + 1) / 2 powi (?e + 1 - 52)"
      using True e by simp
    also have "\<dots> = 2 powi 52"
      using power_int_diff [of "2::real" "?e + 1" "?e + 1 - 52"] by simp
    finally have "fl x / 2 powi (ilog2 (fl x) - 52) = of_int (2 ^ 52)" by simp
    then have "round_even (fl x / 2 powi (ilog2 (fl x) - 52)) = 2 ^ 52"
      by (simp only: round_even_of_int)
    then have "fl (fl x) = 2 ^ 52 * 2 powi (?e + 1 - 52)"
      using pos e by (simp add: fl_pos_eq)
    also have "\<dots> = 2 powi (?e + 1)"
      using power_int_add [of "2::real" 52 "?e + 1 - 52"] by (simp add: add.commute)
    finally show ?thesis using True by simp
  next
    case False
    with b have lt: "fl x < 2 powi (?e + 1)" by simp
    have e: "ilog2 (fl x) = ?e" using pos b(1) lt by (rule ilog2_unique)
    have "fl x / ?u = of_int ?k" using u fx by simp
    then have "round_even (fl x / ?u) = ?k" by (simp only: round_even_of_int)
    then show ?thesis using pos e fx by (simp add: fl_pos_eq)
  qed
qed

lemma fl_idem: "fl (fl x) = fl x"
proof -
  consider "0 < x" | "x = 0" | "x < 0" by linarith
  then show ?thesis
  proof cases
    case 1
    then show ?thesis by (rule fl_idem_pos)
  next
    case 2
    then show ?thesis by (simp add: fl_0)
  next
    case 3
    then have "fl (fl (- x)) = fl (- x)" by (intro fl_idem_pos) simp
    then show ?thesis by (simp add: fl_minus)
  qed
qed

lemma fl_bounds_nonneg:
  assumes "0 \<le> x"
  shows "x * (1 - 1 / 2 ^ 53) \<le> fl x \<and> fl x \<le> x * (1 + 1 / 2 ^ 53)"
proof (cases "x = 0")
  case True
  then show ?thesis by (simp add: fl_0)
next
  case False
  with assms have "0 < x" by simp
  from fl_error_pos [OF this] have "x - x / 2 ^ 53 \<le> fl x" "fl x \<le> x + x / 2 ^ 53"
    by linarith+
  moreover have "x * (1 - 1 / 2 ^ 53) = x - x / 2 ^ 53" "x * (1 + 1 / 2 ^ 53) = x + x / 2 ^ 53"
    by (simp_all add: algebra_simps)
  ultimately show ?thesis by simp
qed

lemma pow2_less_imp_less: "(2::real) powi i < 2 powi j \<Longrightarrow> i < j"
proof (rule ccontr)
  assume a: "(2::real) powi i < 2 powi j" and "\<not> i < j"
  then have "j \<le> i" by simp
  then have "(2::real) powi j \<le> 2 powi i" by (rule power_int_increasing) simp
  with a show False by simp
qed

text \<open>A significand below \<open>2^53\<close> with any exponent is a value of \<open>fl\<close>.\<close>

lemma fl_representable:
  assumes j: "0 < j" "j < 2 ^ 53"
  shows "fl (of_int j * 2 powi t) = of_int j * 2 powi t"
proof -
  let ?y = "of_int j * (2::real) powi t"
  have y: "0 < ?y" using j by simp
  let ?e = "ilog2 ?y"
  from ilog2_bounds [OF y] have b: "2 powi ?e \<le> ?y" by simp
  have "(of_int j :: real) < of_int (2 ^ 53)" using j(2) by (simp only: of_int_less_iff)
  then have "(of_int j :: real) < 2 ^ 53" by simp
  then have "?y < 2 ^ 53 * 2 powi t" by simp
  also have "\<dots> = 2 powi (t + 53)"
    using power_int_add [of "2::real" 53 t] by (simp add: add.commute)
  finally have "(2::real) powi ?e < 2 powi (t + 53)" using b by linarith
  then have "?e < t + 53" by (rule pow2_less_imp_less)
  then have d: "0 \<le> t + 52 - ?e" by simp
  have "?y / 2 powi (?e - 52) = of_int j * (2 powi t / 2 powi (?e - 52))" by simp
  also have "2 powi t / 2 powi (?e - 52) = (2::real) powi (t + 52 - ?e)"
    using power_int_diff [of "2::real" t "?e - 52"] by (simp add: algebra_simps)
  also have "\<dots> = 2 ^ nat (t + 52 - ?e)" using d by (simp add: power_int_def)
  finally have "?y / 2 powi (?e - 52) = of_int (j * 2 ^ nat (t + 52 - ?e))" by simp
  then have "round_even (?y / 2 powi (?e - 52)) = j * 2 ^ nat (t + 52 - ?e)"
    by (simp only: round_even_of_int)
  then have "fl ?y = of_int (j * 2 ^ nat (t + 52 - ?e)) * 2 powi (?e - 52)"
    using y by (simp only: fl_pos_eq)
  also have "\<dots> = of_int j * (2 ^ nat (t + 52 - ?e) * 2 powi (?e - 52))" by simp
  also have "2 ^ nat (t + 52 - ?e) * 2 powi (?e - 52) = (2::real) powi (t + 52 - ?e) * 2 powi (?e - 52)"
    using d by (simp add: power_int_def)
  also have "\<dots> = 2 powi t"
    using power_int_add [of "2::real" "t + 52 - ?e" "?e - 52"] by simp
  finally show ?thesis .
qed

text \<open>A positive value of \<open>fl\<close> is a significand from \<open>2^52\<close> to below \<open>2^53\<close> times its unit.\<close>

lemma representable_form:
  assumes "0 < x" "fl x = x"
  obtains k where "x = of_int k * 2 powi (ilog2 x - 52)" "2 ^ 52 \<le> k" "k < 2 ^ 53"
proof -
  let ?u = "(2::real) powi (ilog2 x - 52)"
  let ?k = "round_even (x / ?u)"
  have u: "0 < ?u" by simp
  have x: "x = of_int ?k * ?u" using assms by (simp add: fl_pos_eq)
  then have "x / ?u = of_int ?k" using u by (simp add: field_simps)
  with significand_bounds [OF assms(1)]
  have "(2::real) ^ 52 \<le> of_int ?k" "(of_int ?k :: real) < 2 ^ 53" by simp_all
  then have "(of_int (2 ^ 52) :: real) \<le> of_int ?k" "(of_int ?k :: real) < of_int (2 ^ 53)"
    by simp_all
  then have "2 ^ 52 \<le> ?k" "?k < 2 ^ 53" by (simp_all only: of_int_le_iff of_int_less_iff)
  with x that show ?thesis by blast
qed


lemma fl_nonpos_iff: "fl x \<le> 0 \<longleftrightarrow> x \<le> 0"
proof
  assume "fl x \<le> 0"
  then show "x \<le> 0" using fl_pos [of x] by (cases "0 < x") simp_all
next
  assume "x \<le> 0"
  then have "fl x \<le> fl 0" by (rule fl_mono)
  then show "fl x \<le> 0" by (simp add: fl_0)
qed

text \<open>The integers up to \<open>2^53\<close> are values of \<open>fl\<close>.\<close>

lemma fl_of_int:
  assumes "0 \<le> n" "n \<le> 2 ^ 53"
  shows "fl (of_int n) = of_int n"
proof -
  consider "n = 0" | "0 < n" "n < 2 ^ 53" | "n = 2 ^ 53" using assms by linarith
  then show ?thesis
  proof cases
    case 1
    then show ?thesis by (simp add: fl_0)
  next
    case 2
    from fl_representable [OF this, of 0] show ?thesis by simp
  next
    case 3
    have "fl (of_int (2 ^ 52) * 2 powi 1) = of_int (2 ^ 52) * 2 powi 1"
      by (rule fl_representable) simp_all
    with 3 show ?thesis by simp
  qed
qed

lemma round_even_below_half:
  assumes "of_int k - 1 < m" "m < of_int k - 1 / 2"
  shows "round_even m = k - 1"
proof -
  have f: "\<lfloor>m\<rfloor> = k - 1" using assms by (intro floor_unique) simp_all
  have "m - of_int (k - 1) < 1 / 2" using assms(2) by simp
  then show ?thesis unfolding round_even_def Let_def f by simp
qed

text \<open>The largest value of \<open>fl\<close> below 1 is \<open>1 - 2^-53\<close>.\<close>

lemma below_one:
  assumes u: "0 \<le> u" "u < 1" "fl u = u"
  shows "u \<le> 1 - 1 / 2 ^ 53"
proof (cases "u = 0")
  case True
  then show ?thesis by simp
next
  case False
  with u have pos: "0 < u" by simp
  from ilog2_bounds [OF pos] have b: "2 powi (ilog2 u) \<le> u" "u < 2 powi (ilog2 u + 1)"
    by simp_all
  have "(2::real) powi (ilog2 u) < 2 powi 0" using b(1) u(2) by simp
  then have neg: "ilog2 u < 0" by (rule pow2_less_imp_less)
  show ?thesis
  proof (cases "ilog2 u = - 1")
    case True
    from representable_form [OF pos u(3)] obtain k
      where k: "u = of_int k * 2 powi (ilog2 u - 52)" "k < 2 ^ 53" by blast
    have "k \<le> 2 ^ 53 - 1" using k(2) by simp
    then have "(of_int k :: real) \<le> of_int (2 ^ 53 - 1)" by (simp only: of_int_le_iff)
    then have "(of_int k :: real) \<le> 2 ^ 53 - 1" by simp
    moreover have "u = of_int k / 2 ^ 53"
      using k(1) True by (simp add: power_int_minus_divide)
    ultimately show ?thesis by (simp add: field_simps)
  next
    case False
    with neg have "ilog2 u + 1 \<le> - 1" by simp
    then have "(2::real) powi (ilog2 u + 1) \<le> 2 powi (- 1)"
      by (rule power_int_increasing) simp
    with b(2) have "u < 1 / 2" by (simp add: power_int_minus_divide)
    then show ?thesis by simp
  qed
qed

text \<open>
  Line 142: for a value \<open>u\<close> of \<open>Math.random()\<close>, a double in \<open>[0, 1)\<close>, and a total
  weight that is a double, the rounded product is in \<open>[0, W)\<close>.
\<close>

lemma draw_in_range:
  assumes u: "0 \<le> u" "u < 1" "fl u = u" and W: "0 < W" "fl W = W"
  shows "0 \<le> draw u W \<and> draw u W < W"
proof -
  have nonneg: "0 \<le> draw u W"
    unfolding draw_def using u(1) W(1) by (intro fl_nonneg mult_nonneg_nonneg) simp_all
  let ?y = "W * (1 - 1 / 2 ^ 53)"
  have "u * W \<le> (1 - 1 / 2 ^ 53) * W"
    using below_one [OF u] W(1) by (intro mult_right_mono) simp_all
  then have "u * W \<le> ?y" by (simp add: mult.commute)
  then have le: "draw u W \<le> fl ?y" unfolding draw_def by (rule fl_mono)
  from representable_form [OF W] obtain k
    where k: "W = of_int k * 2 powi (ilog2 W - 52)" "2 ^ 52 \<le> k" "k < 2 ^ 53" by blast
  let ?t = "ilog2 W - 52"
  have "fl ?y < W"
  proof (cases "k = 2 ^ 52")
    case True
    have Yeq: "?y = of_int (2 ^ 53 - 1) * 2 powi (?t - 1)"
    proof -
      have "(2::real) powi ?t = 2 * 2 powi (?t - 1)"
        using power_int_add [of "2::real" 1 "?t - 1"] by simp
      then have "W = 2 ^ 53 * 2 powi (?t - 1)" using k(1) True by simp
      then have "?y = (2 ^ 53 * (1 - 1 / 2 ^ 53)) * 2 powi (?t - 1)" by simp
      then show ?thesis by simp
    qed
    have Rep: "fl (of_int (2 ^ 53 - 1) * 2 powi (?t - 1)) = of_int (2 ^ 53 - 1) * 2 powi (?t - 1)"
      by (rule fl_representable) simp_all
    have "fl ?y = ?y" by (simp only: Yeq Rep)
    moreover have "?y < W" using W(1) by (simp add: algebra_simps)
    ultimately show ?thesis by (simp only:)
  next
    case False
    with k(2) have kgt: "2 ^ 52 < k" by simp
    let ?m = "?y / 2 powi ?t"
    have tpos: "(0::real) < 2 powi ?t" by simp
    have m: "?m = of_int k - of_int k / 2 ^ 53"
    proof -
      have "?m = (W / 2 powi ?t) * (1 - 1 / 2 ^ 53)" by simp
      also have "W / 2 powi ?t = of_int k" using k(1) tpos by (simp add: field_simps)
      finally show ?thesis by (simp add: algebra_simps)
    qed
    have "(of_int (2 ^ 52) :: real) < of_int k" using kgt by (simp only: of_int_less_iff)
    then have k1: "(2::real) ^ 52 < of_int k" by simp
    have "(of_int k :: real) < of_int (2 ^ 53)" using k(3) by (simp only: of_int_less_iff)
    then have k2: "(of_int k :: real) < 2 ^ 53" by simp
    have m_hi: "?m < of_int k - 1 / 2" using k1 unfolding m by simp
    have m_lo: "of_int k - 1 < ?m" using k2 unfolding m by simp
    have r: "round_even ?m = k - 1" using m_lo m_hi by (rule round_even_below_half)
    have ypos: "0 < ?y" using W(1) by simp
    have "2 ^ 52 \<le> k - 1" using kgt by simp
    then have "(of_int (2 ^ 52) :: real) \<le> of_int (k - 1)" by (simp only: of_int_le_iff)
    then have "(2::real) ^ 52 \<le> of_int k - 1" by simp
    with m_lo have "(2::real) ^ 52 \<le> ?m" by linarith
    then have "2 ^ 52 * 2 powi ?t \<le> ?y" using tpos by (simp add: pos_le_divide_eq)
    moreover have "(2::real) ^ 52 * 2 powi ?t = 2 powi (ilog2 W)"
      using power_int_add [of "2::real" 52 ?t] by simp
    ultimately have ylo: "2 powi (ilog2 W) \<le> ?y" by simp
    have "?y < W" using W(1) by (simp add: algebra_simps)
    also have "W < 2 powi (ilog2 W + 1)" using ilog2_bounds [OF W(1)] by simp
    finally have yhi: "?y < 2 powi (ilog2 W + 1)" .
    have e: "ilog2 ?y = ilog2 W" using ypos ylo yhi by (rule ilog2_unique)
    have "fl ?y = of_int (k - 1) * 2 powi ?t"
      using ypos e r by (simp add: fl_pos_eq)
    also have "\<dots> < of_int k * 2 powi ?t" using tpos by simp
    finally show ?thesis using k(1) by simp
  qed
  with le nonneg show ?thesis by linarith
qed

text \<open>
  The subtraction \<open>randomNum -= item.weight\<close>: for a double \<open>r\<close> below \<open>2^53\<close> and a
  positive integer weight, a positive difference is a double, so it is not changed by the
  rounding; and rounding never changes the sign.
\<close>

lemma subtraction_exact:
  assumes r: "0 < r" "fl r = r" "r < 2 ^ 53" and n: "0 < n" and d: "0 < r - of_int n"
  shows "fl (r - of_int n) = r - of_int n"
proof -
  from representable_form [OF r(1,2)] obtain k
    where k: "r = of_int k * 2 powi (ilog2 r - 52)" "k < 2 ^ 53" by blast
  let ?t = "ilog2 r - 52"
  have "(2::real) powi (ilog2 r) < 2 powi 53"
    using ilog2_bounds [OF r(1)] r(3) by simp
  then have "ilog2 r < 53" by (rule pow2_less_imp_less)
  then have t: "?t \<le> 0" by simp
  have one: "(2::real) ^ nat (- ?t) * 2 powi ?t = 1"
  proof -
    have "(2::real) ^ nat (- ?t) = 2 powi (- ?t)" using t by (simp add: power_int_def)
    then show ?thesis using power_int_add [of "2::real" "- ?t" ?t] by simp
  qed
  let ?j = "k - n * 2 ^ nat (- ?t)"
  have "of_int ?j * (2::real) powi ?t
          = of_int k * 2 powi ?t - of_int n * (2 ^ nat (- ?t) * 2 powi ?t)"
    by (simp add: algebra_simps)
  also have "\<dots> = r - of_int n" by (simp only: one k(1) [symmetric] mult_1_right)
  finally have eq: "r - of_int n = of_int ?j * 2 powi ?t" by simp
  have tpos: "(0::real) < 2 powi ?t" by simp
  have "0 < of_int ?j * (2::real) powi ?t" using d eq by simp
  then have "(0::real) < of_int ?j" using tpos by (simp only: zero_less_mult_pos2)
  then have j0: "0 < ?j" by (simp only: of_int_0_less_iff)
  have "0 < n * 2 ^ nat (- ?t)" using n by simp
  then have j1: "?j < 2 ^ 53" using k(2) by linarith
  from fl_representable [OF j0 j1, of ?t] show ?thesis by (simp only: eq)
qed

section \<open>Auxiliary facts about the selection loop\<close>

lemma walk_eligible: "walk bd tw items st = walk False tw (eligible bd items) st"
  by (induction items arbitrary: st) (auto simp: eligible_def Let_def)

lemma foldl_weight:
  "foldl (\<lambda>sum item. sum + (if bd \<and> team item = product then 0 else weight item)) a items
     = a + sum_list (map weight (eligible bd items))"
  by (induction items arbitrary: a) (simp_all add: eligible_def)

lemma totalWeight_eligible: "totalWeight bd items = sum_list (map weight (eligible bd items))"
  by (simp add: totalWeight_def foldl_weight)

lemma prefix_weight_0: "prefix_weight es 0 = 0"
  by (simp add: prefix_weight_def)

lemma prefix_weight_Cons: "prefix_weight (item # rest) (Suc k) = weight item + prefix_weight rest k"
  by (simp add: prefix_weight_def)

lemma prefix_weight_Suc:
  "k < length es \<Longrightarrow> prefix_weight es (Suc k) = prefix_weight es k + weight (es ! k)"
  by (simp add: prefix_weight_def take_Suc_conv_app_nth)

lemma prefix_weight_all: "prefix_weight es (length es) = sum_list (map weight es)"
  by (simp add: prefix_weight_def)

lemma prefix_weight_nonneg:
  "\<forall>item\<in>set es. 0 < weight item \<Longrightarrow> 0 \<le> prefix_weight es k"
  unfolding prefix_weight_def
  by (rule sum_list_nonneg) (auto dest!: in_set_takeD intro: less_imp_le)

lemma walk_selected:
  "selectedItem st = None \<Longrightarrow>
   selectedItem (walk False tw es st)
     = map_option (\<lambda>k. es ! k) (first_nonpositive (randomNum st) es)"
proof (induction es arbitrary: st)
  case Nil
  then show ?case by simp
next
  case (Cons item rest)
  show ?case
  proof (cases "randomNum st - weight item \<le> 0")
    case True
    then show ?thesis by (simp add: Let_def)
  next
    case False
    let ?st' = "st\<lparr>winningStartDegree := cumulativeWeight st,
                    winningEndDegree := fl (cumulativeWeight st + fl (fl (weight item / tw) * 360)),
                    randomNum := randomNum st - weight item,
                    cumulativeWeight := fl (cumulativeWeight st + fl (fl (weight item / tw) * 360))\<rparr>"
    have "selectedItem ?st' = None" using Cons.prems by simp
    from Cons.IH [OF this] False show ?thesis
      by (simp add: Let_def option.map_comp o_def)
  qed
qed

lemma walk_bounds:
  "first_nonpositive (randomNum st) es = Some k \<Longrightarrow>
   winningStartDegree (walk False tw es st) = fst (segments tw es (cumulativeWeight st) ! k) \<and>
   winningEndDegree (walk False tw es st) = snd (segments tw es (cumulativeWeight st) ! k)"
proof (induction es arbitrary: st k)
  case Nil
  then show ?case by simp
next
  case (Cons item rest)
  show ?case
  proof (cases "randomNum st - weight item \<le> 0")
    case True
    with Cons.prems have "k = 0" by simp
    with True show ?thesis by (simp add: Let_def)
  next
    case False
    with Cons.prems obtain k' where k: "k = Suc k'"
      and f: "first_nonpositive (randomNum st - weight item) rest = Some k'"
      by auto
    let ?st' = "st\<lparr>winningStartDegree := cumulativeWeight st,
                    winningEndDegree := fl (cumulativeWeight st + fl (fl (weight item / tw) * 360)),
                    randomNum := randomNum st - weight item,
                    cumulativeWeight := fl (cumulativeWeight st + fl (fl (weight item / tw) * 360))\<rparr>"
    have "first_nonpositive (randomNum ?st') rest = Some k'" using f by simp
    from Cons.IH [OF this] False k show ?thesis
      by (simp add: Let_def)
  qed
qed

lemma first_nonpositive_iff:
  "\<forall>item\<in>set es. 0 < weight item \<Longrightarrow>
   first_nonpositive r es = Some k \<longleftrightarrow>
     k < length es \<and> (k = 0 \<or> prefix_weight es k < r) \<and> r \<le> prefix_weight es (Suc k)"
proof (induction es arbitrary: r k)
  case Nil
  then show ?case by simp
next
  case (Cons item rest)
  have pos: "\<forall>item\<in>set rest. 0 < weight item" and w: "0 < weight item"
    using Cons.prems by simp_all
  show ?case
  proof (cases k)
    case 0
    then show ?thesis by (auto simp: prefix_weight_Cons prefix_weight_0)
  next
    case (Suc k')
    have nn: "0 \<le> prefix_weight rest k'" by (rule prefix_weight_nonneg [OF pos])
    show ?thesis
    proof (cases "r - weight item \<le> 0")
      case True
      with nn Suc show ?thesis by (simp add: prefix_weight_Cons)
    next
      case False
      have "first_nonpositive r (item # rest) = Some k \<longleftrightarrow>
            first_nonpositive (r - weight item) rest = Some k'"
        using False Suc by auto
      also have "\<dots> \<longleftrightarrow> k' < length rest \<and> (k' = 0 \<or> prefix_weight rest k' < r - weight item)
                         \<and> r - weight item \<le> prefix_weight rest (Suc k')"
        by (rule Cons.IH [OF pos])
      also have "\<dots> \<longleftrightarrow> k < length (item # rest) \<and> (k = 0 \<or> prefix_weight (item # rest) k < r)
                         \<and> r \<le> prefix_weight (item # rest) (Suc k)"
        using False Suc by (auto simp: prefix_weight_Cons prefix_weight_0)
      finally show ?thesis .
    qed
  qed
qed

lemma first_nonpositive_total:
  "es \<noteq> [] \<Longrightarrow> r \<le> sum_list (map weight es) \<Longrightarrow> \<exists>k. first_nonpositive r es = Some k"
proof (induction es arbitrary: r)
  case Nil
  then show ?case by simp
next
  case (Cons item rest)
  show ?case
  proof (cases "r - weight item \<le> 0")
    case True
    then show ?thesis by simp
  next
    case False
    have "rest \<noteq> []" using False Cons.prems by auto
    moreover have "r - weight item \<le> sum_list (map weight rest)" using Cons.prems by simp
    ultimately obtain k where "first_nonpositive (r - weight item) rest = Some k"
      using Cons.IH by blast
    with False show ?thesis by simp
  qed
qed

lemma first_nonpositive_less: "first_nonpositive r es = Some k \<Longrightarrow> k < length es"
  by (induction es arbitrary: r k) (auto split: if_splits)

lemma segments_length: "length (segments tw es cum) = length es"
  by (induction es arbitrary: cum) (simp_all add: Let_def)

lemma category_check:
  "(length (filter (\<lambda>d. team d = product) items) < 1 \<or>
    int (length items) - int (length (filter (\<lambda>d. team d = product) items)) < 1)
   \<longleftrightarrow> (product \<notin> team ` set items \<or> engineering \<notin> team ` set items)"
proof -
  let ?p = "filter (\<lambda>d. team d = product) items"
  let ?e = "filter (\<lambda>d. \<not> team d = product) items"
  have len: "length ?p + length ?e = length items"
    by (rule sum_length_filter_compl)
  have p: "length ?p < 1 \<longleftrightarrow> product \<notin> team ` set items"
    by (auto simp: filter_empty_conv image_iff)
  have "length ?e < 1 \<longleftrightarrow> (\<forall>d\<in>set items. team d = product)"
    by (auto simp: filter_empty_conv)
  also have "\<dots> \<longleftrightarrow> engineering \<notin> team ` set items"
  proof
    assume "\<forall>d\<in>set items. team d = product"
    then show "engineering \<notin> team ` set items" by auto
  next
    assume e: "engineering \<notin> team ` set items"
    show "\<forall>d\<in>set items. team d = product"
    proof
      fix d assume "d \<in> set items"
      with e have "team d \<noteq> engineering" by force
      then show "team d = product" by (cases "team d") simp_all
    qed
  qed
  finally have e: "length ?e < 1 \<longleftrightarrow> engineering \<notin> team ` set items" .
  have "int (length items) - int (length ?p) < 1 \<longleftrightarrow> length ?e < 1"
    using len by linarith
  with p e show ?thesis by simp
qed

lemma eligible_nonempty:
  assumes "engineering \<in> team ` set items"
  shows "eligible bd items \<noteq> []"
proof -
  from assms obtain d where d: "d \<in> set items" "team d = engineering" by auto
  then have "d \<in> set (eligible bd items)" by (simp add: eligible_def)
  then show ?thesis by auto
qed

lemma eligible_subset: "set (eligible bd items) \<subseteq> set items"
  by (auto simp: eligible_def)

lemma sum_weight_pos:
  assumes ne: "es \<noteq> []" and pos: "\<forall>item\<in>set es. 0 < weight item"
  shows "0 < sum_list (map weight es)"
proof (cases es)
  case Nil
  with ne show ?thesis by simp
next
  case (Cons item rest)
  have "0 \<le> sum_list (map weight rest)"
    using pos Cons by (intro sum_list_nonneg) (auto intro: less_imp_le)
  moreover have "0 < weight item" using pos Cons by simp
  ultimately show ?thesis using Cons by simp
qed

lemma prefix_weight_le:
  assumes "\<forall>item\<in>set es. 0 < weight item"
  shows "prefix_weight es k \<le> sum_list (map weight es)"
proof -
  have "sum_list (map weight es) = sum_list (map weight (take k es @ drop k es))"
    by simp
  also have "\<dots> = prefix_weight es k + sum_list (map weight (drop k es))"
    by (simp add: prefix_weight_def del: append_take_drop_id)
  finally have eq: "sum_list (map weight es) = prefix_weight es k + sum_list (map weight (drop k es))" .
  have "0 \<le> sum_list (map weight (drop k es))"
    using assms by (intro sum_list_nonneg) (auto dest!: in_set_dropD intro: less_imp_le)
  with eq show ?thesis by simp
qed

text \<open>What \<open>handleDecide\<close> does once the category check has passed.\<close>

lemma handleDecide_selected:
  assumes p: "product \<in> team ` set (decisionItems s)"
    and e: "engineering \<in> team ` set (decisionItems s)"
    and es: "es = eligible (betterDecision s) (decisionItems s)"
    and W: "W = totalWeight (betterDecision s) (decisionItems s)"
    and k: "first_nonpositive r es = Some k"
  shows "handleDecide r s =
           (Decided (es ! k) (fst (segments W es 0 ! k)) (snd (segments W es 0 ! k)),
            s\<lparr>notification := [],
              rotation := finalDegree (fst (segments W es 0 ! k)) (snd (segments W es 0 ! k)),
              timers := timers s @ [(0, StopSpin (es ! k))]\<rparr>)"
proof -
  let ?st = "walk (betterDecision s) W (decisionItems s) (walk_init r)"
  have st: "?st = walk False W es (walk_init r)"
    unfolding es by (rule walk_eligible)
  have sel: "selectedItem ?st = Some (es ! k)"
    unfolding st using walk_selected [of "walk_init r" W es] k
    by (simp add: walk_init_def)
  have b: "winningStartDegree ?st = fst (segments W es 0 ! k) \<and>
           winningEndDegree ?st = snd (segments W es 0 ! k)"
    unfolding st using walk_bounds [of "walk_init r" es k W] k
    by (simp add: walk_init_def)
  have chk: "\<not> (length (filter (\<lambda>d. team d = product) (decisionItems s)) < 1 \<or>
     int (length (decisionItems s)) - int (length (filter (\<lambda>d. team d = product) (decisionItems s))) < 1)"
    unfolding category_check using p e by simp
  show ?thesis
    unfolding handleDecide_def Let_def W [symmetric]
    using chk sel b by simp
qed

lemma selection_setup:
  assumes p: "product \<in> team ` set (decisionItems s)"
    and e: "engineering \<in> team ` set (decisionItems s)"
    and pos: "\<forall>item\<in>set (decisionItems s). 0 < weight item"
    and es: "es = eligible (betterDecision s) (decisionItems s)"
    and W: "W = totalWeight (betterDecision s) (decisionItems s)"
  shows "es \<noteq> []" and "\<forall>item\<in>set es. 0 < weight item"
    and "W = sum_list (map weight es)" and "0 < W"
proof -
  show ne: "es \<noteq> []" unfolding es using e by (rule eligible_nonempty)
  show pe: "\<forall>item\<in>set es. 0 < weight item"
    unfolding es using pos eligible_subset [of "betterDecision s" "decisionItems s"] by auto
  show sum: "W = sum_list (map weight es)" unfolding W es by (rule totalWeight_eligible)
  show "0 < W" unfolding sum using ne pe by (rule sum_weight_pos)
qed

section \<open>Values of the rounding\<close>

text \<open>Rounding with a given exponent, for evaluation.\<close>

lemma fl_eval:
  assumes "0 < x" "2 powi e \<le> x" "x < 2 powi (e + 1)"
  shows "fl x = of_int (round_even (x / 2 powi (e - 52))) * 2 powi (e - 52)"
  using ilog2_unique [OF assms] assms(1) by (simp add: fl_pos_eq)

lemma fl_values:
  "fl (1 / 4) = 1 / 4"
  "fl (3 / 4) = 3 / 4"
  "fl 90 = 90"
  "fl 270 = 270"
  "fl 360 = 360"
  "fl 2 = 2"
proof -
  show "fl (1 / 4) = 1 / 4"
    by (subst fl_eval [where e = "- 2"]) (simp_all add: round_even_def)
  show "fl (3 / 4) = 3 / 4"
    by (subst fl_eval [where e = "- 1"]) (simp_all add: round_even_def)
  show "fl 90 = 90"
    by (subst fl_eval [where e = 6]) (simp_all add: round_even_def)
  show "fl 270 = 270"
    by (subst fl_eval [where e = 8]) (simp_all add: round_even_def)
  show "fl 360 = 360"
    by (subst fl_eval [where e = 8]) (simp_all add: round_even_def)
  show "fl 2 = 2"
    by (subst fl_eval [where e = 1]) (simp_all add: round_even_def)
qed

lemma fl_sevenths:
  "fl (1 / 7) = 2573485501354569 / 18014398509481984"
  "fl (4 / 7) = 2573485501354569 / 4503599627370496"
  "fl (2 / 7) = 2573485501354569 / 9007199254740992"
proof -
  show "fl (1 / 7) = 2573485501354569 / 18014398509481984"
    by (subst fl_eval [where e = "- 3"]) (simp_all add: round_even_def Let_def)
  show "fl (4 / 7) = 2573485501354569 / 4503599627370496"
    by (subst fl_eval [where e = "- 1"]) (simp_all add: round_even_def Let_def)
  show "fl (2 / 7) = 2573485501354569 / 9007199254740992"
    by (subst fl_eval [where e = "- 2"]) (simp_all add: round_even_def Let_def)
qed


lemma uneven_roundings:
  "fl (115806847560955605 / 2251799813685248) = 7237927972559725 / 140737488355328"
  "fl (7237927972559725 / 140737488355328) = 7237927972559725 / 140737488355328"
  "fl (115806847560955605 / 562949953421312) = 7237927972559725 / 35184372088832"
  "fl (115806847560955605 / 1125899906842624) = 7237927972559725 / 70368744177664"
  "fl (36189639862798625 / 140737488355328) = 1130926245712457 / 4398046511104"
  "fl (25332747903959037 / 70368744177664) = 6333186975989759 / 17592186044416"
proof -
  show "fl (115806847560955605 / 2251799813685248) = 7237927972559725 / 140737488355328"
    by (subst fl_eval [where e = 5]) (simp_all add: round_even_def Let_def)
  show "fl (7237927972559725 / 140737488355328) = 7237927972559725 / 140737488355328"
    by (subst fl_eval [where e = 5]) (simp_all add: round_even_def Let_def)
  show "fl (115806847560955605 / 562949953421312) = 7237927972559725 / 35184372088832"
    by (subst fl_eval [where e = 7]) (simp_all add: round_even_def Let_def)
  show "fl (115806847560955605 / 1125899906842624) = 7237927972559725 / 70368744177664"
    by (subst fl_eval [where e = 6]) (simp_all add: round_even_def Let_def)
  show "fl (36189639862798625 / 140737488355328) = 1130926245712457 / 4398046511104"
    by (subst fl_eval [where e = 8]) (simp_all add: round_even_def Let_def)
  show "fl (25332747903959037 / 70368744177664) = 6333186975989759 / 17592186044416"
    by (subst fl_eval [where e = 8]) (simp_all add: round_even_def Let_def)
qed

lemma thirds_roundings:
  "fl (2 / 3) = 6004799503160661 / 9007199254740992"
  "fl (270215977642229745 / 1125899906842624) = 240"
  "fl 240 = 240"
proof -
  show "fl (2 / 3) = 6004799503160661 / 9007199254740992"
    by (subst fl_eval [where e = "- 1"]) (simp_all add: round_even_def Let_def)
  show "fl (270215977642229745 / 1125899906842624) = 240"
    by (subst fl_eval [where e = 7]) (simp_all add: round_even_def Let_def)
  show "fl 240 = 240"
    by (subst fl_eval [where e = 7]) (simp_all add: round_even_def Let_def)
qed

text \<open>
  A product that is rounded onto a boundary: for the value \<open>0.6666666666666667\<close> of
  \<open>Math.random()\<close> and the total weight 3 the exact product is above 2, the draw is 2.
\<close>

lemma draw_on_boundary: "draw (3002399751580331 / 4503599627370496) 3 = 2"
  unfolding draw_def by (subst fl_eval [where e = 1]) (simp_all add: round_even_def Let_def)

section \<open>Decisions on the concrete registries\<close>

lemma example_segments: "segments 4 example_items 0 = [(0, 90), (90, 360)]"
  by (simp add: example_items_def Let_def fl_values)

lemma uneven_segments:
  "segments 7 uneven_items 0 =
     [(0, 7237927972559725 / 140737488355328),
      (7237927972559725 / 140737488355328, 1130926245712457 / 4398046511104),
      (1130926245712457 / 4398046511104, 6333186975989759 / 17592186044416)]"
  by (simp add: uneven_items_def Let_def fl_sevenths uneven_roundings)

lemma example_facts:
  "product \<in> team ` set (decisionItems example_state)"
  "engineering \<in> team ` set (decisionItems example_state)"
  "\<forall>item\<in>set (decisionItems example_state). 0 < weight item"
  "example_items = eligible (betterDecision example_state) (decisionItems example_state)"
  "(4::real) = totalWeight (betterDecision example_state) (decisionItems example_state)"
  by (simp_all add: example_state_def example_items_def init_state_def eligible_def
      totalWeight_def)

lemma uneven_facts:
  "product \<in> team ` set (decisionItems uneven_state)"
  "engineering \<in> team ` set (decisionItems uneven_state)"
  "\<forall>item\<in>set (decisionItems uneven_state). 0 < weight item"
  "uneven_items = eligible (betterDecision uneven_state) (decisionItems uneven_state)"
  "(7::real) = totalWeight (betterDecision uneven_state) (decisionItems uneven_state)"
  by (simp_all add: uneven_state_def uneven_items_def init_state_def eligible_def
      totalWeight_def)

lemma handleDecide_example:
  "handleDecide 2 example_state =
     (Decided (example_items ! 1) 90 360,
      example_state\<lparr>notification := [], rotation := finalDegree 90 360,
                     timers := [(0, StopSpin (example_items ! 1))]\<rparr>)"
proof -
  have k: "first_nonpositive 2 example_items = Some 1"
    by (simp add: example_items_def)
  from handleDecide_selected [OF example_facts(1,2,4,5) k] show ?thesis
    by (simp add: example_segments) (simp add: example_state_def init_state_def)
qed

lemma handleDecide_uneven:
  "fst (handleDecide (13 / 2) uneven_state) =
     Decided (uneven_items ! 2) (1130926245712457 / 4398046511104)
       (6333186975989759 / 17592186044416)"
proof -
  have k: "first_nonpositive (13 / 2) uneven_items = Some 2"
    by (simp add: uneven_items_def)
  from handleDecide_selected [OF uneven_facts(1,2,4,5) k] show ?thesis
    by (simp add: uneven_segments)
qed

lemma boundary_facts:
  "product \<in> team ` set (decisionItems boundary_state)"
  "engineering \<in> team ` set (decisionItems boundary_state)"
  "boundary_items = eligible (betterDecision boundary_state) (decisionItems boundary_state)"
  "(3::real) = totalWeight (betterDecision boundary_state) (decisionItems boundary_state)"
  by (simp_all add: boundary_state_def boundary_items_def init_state_def eligible_def
      totalWeight_def)

text \<open>With that draw the first item is selected; the exact product would select the second.\<close>

lemma handleDecide_boundary:
  "fst (handleDecide (draw (3002399751580331 / 4503599627370496) 3) boundary_state)
     = Decided (boundary_items ! 0) 0 240 \<and>
   first_nonpositive (3002399751580331 / 4503599627370496 * 3) boundary_items = Some 1"
proof -
  have k: "first_nonpositive (draw (3002399751580331 / 4503599627370496) 3) boundary_items
             = Some 0"
    by (simp add: draw_on_boundary boundary_items_def)
  have "segments 3 boundary_items 0 ! 0 = (0, 240)"
    by (simp add: boundary_items_def Let_def thirds_roundings)
  with handleDecide_selected [OF boundary_facts k] show ?thesis
    by (simp add: boundary_items_def)
qed


text \<open>
  A set between the open and the closed interval with end points \<open>a < b\<close> has the
  supremum \<open>b\<close> and the infimum \<open>a\<close>.
\<close>

lemma sandwiched_Sup_Inf:
  fixes a b :: real
  assumes ab: "a < b" and lo: "{a<..<b} \<subseteq> S" and hi: "S \<subseteq> {a..b}"
  shows "Sup S = b \<and> Inf S = a"
proof -
  have mid: "(a + b) / 2 \<in> S" using ab lo by auto
  then have ne: "S \<noteq> {}" by auto
  have "Sup S = b"
  proof (rule cSup_eq_non_empty [OF ne])
    fix x assume "x \<in> S"
    with hi show "x \<le> b" by auto
  next
    fix y assume ub: "\<And>x. x \<in> S \<Longrightarrow> x \<le> y"
    show "b \<le> y"
    proof (rule ccontr)
      assume "\<not> b \<le> y"
      then have y: "y < b" by simp
      define z where "z = max ((a + b) / 2) ((y + b) / 2)"
      have "a < z" "z < b" "y < z" using ab y by (auto simp: z_def max_def)
      then have "z \<in> S" using lo by auto
      with ub have "z \<le> y" by blast
      with \<open>y < z\<close> show False by simp
    qed
  qed
  moreover have "Inf S = a"
  proof (rule cInf_eq_non_empty [OF ne])
    fix x assume "x \<in> S"
    with hi show "a \<le> x" by auto
  next
    fix y assume lb: "\<And>x. x \<in> S \<Longrightarrow> y \<le> x"
    show "y \<le> a"
    proof (rule ccontr)
      assume "\<not> y \<le> a"
      then have y: "a < y" by simp
      define z where "z = min ((a + b) / 2) ((y + a) / 2)"
      have "a < z" "z < b" "z < y" using ab y by (auto simp: z_def min_def)
      then have "z \<in> S" using lo by auto
      with lb have "y \<le> z" by blast
      with \<open>z < y\<close> show False by simp
    qed
  qed
  ultimately show ?thesis by simp
qed

section \<open>The selection is the cumulative-weight inversion\<close>

text \<open>
  C1. Let the registry hold a product and an engineering item and only positive weights,
  let \<open>es\<close> be the eligible items and \<open>W\<close> their total weight. For every draw \<open>r\<close> in
  \<open>[0, W)\<close>, \<open>handleDecide\<close> selects the eligible item at the first index at which
  subtracting the successive weights from \<open>r\<close> gives a non-positive value. For each
  eligible index \<open>k\<close> the draws in \<open>[0, W)\<close> that select \<open>k\<close> are exactly those with
  \<open>prefix k < r \<le> prefix (k + 1)\<close> (for \<open>k = 0\<close>: \<open>0 \<le> r \<le> prefix 1\<close>): a set that
  lies between the open and the closed interval with these end points, whose distance is
  the weight of item \<open>k\<close>. So for a draw that is uniform on \<open>[0, W)\<close> the probability
  of item \<open>k\<close> is \<open>weight / W\<close>; a draw on a boundary goes to the earlier item.
  (Positive weights are an invariant of the registry, see \<open>run_weights_positive\<close>
  below.)
\<close>

theorem weighted_selection_intervals:
  assumes p: "product \<in> team ` set (decisionItems s)"
    and e: "engineering \<in> team ` set (decisionItems s)"
    and pos: "\<forall>item\<in>set (decisionItems s). 0 < weight item"
    and es: "es = eligible (betterDecision s) (decisionItems s)"
    and W: "W = totalWeight (betterDecision s) (decisionItems s)"
  shows "(\<forall>r. 0 \<le> r \<and> r < W \<longrightarrow>
            (\<exists>k<length es. first_nonpositive r es = Some k \<and>
               (k = 0 \<or> prefix_weight es k < r) \<and> r \<le> prefix_weight es (Suc k) \<and>
               (\<exists>a b. fst (handleDecide r s) = Decided (es ! k) a b))) \<and>
         (\<forall>k<length es.
            {r. 0 \<le> r \<and> r < W \<and> first_nonpositive r es = Some k}
              = {r. 0 \<le> r \<and> r < W \<and> (k = 0 \<or> prefix_weight es k < r) \<and>
                    r \<le> prefix_weight es (Suc k)} \<and>
            {prefix_weight es k <..< prefix_weight es (Suc k)}
              \<subseteq> {r. 0 \<le> r \<and> r < W \<and> first_nonpositive r es = Some k} \<and>
            {r. 0 \<le> r \<and> r < W \<and> first_nonpositive r es = Some k}
              \<subseteq> {prefix_weight es k .. prefix_weight es (Suc k)} \<and>
            prefix_weight es (Suc k) - prefix_weight es k = weight (es ! k) \<and>
            interval_probability W {r. 0 \<le> r \<and> r < W \<and> first_nonpositive r es = Some k}
              = weight (es ! k) / W)"
proof -
  note basics = selection_setup [OF p e pos es W]
  have ne: "es \<noteq> []" and pe: "\<forall>item\<in>set es. 0 < weight item"
    and sum: "W = sum_list (map weight es)" and Wpos: "0 < W"
    using basics by blast+
  have iff: "\<And>r k. first_nonpositive r es = Some k \<longleftrightarrow>
      k < length es \<and> (k = 0 \<or> prefix_weight es k < r) \<and> r \<le> prefix_weight es (Suc k)"
    by (rule first_nonpositive_iff [OF pe])
  have first: "\<exists>k<length es. first_nonpositive r es = Some k \<and>
            (k = 0 \<or> prefix_weight es k < r) \<and> r \<le> prefix_weight es (Suc k) \<and>
            (\<exists>a b. fst (handleDecide r s) = Decided (es ! k) a b)"
    if r: "0 \<le> r \<and> r < W" for r
  proof -
    have "r \<le> sum_list (map weight es)" using r sum by simp
    with ne obtain k where k: "first_nonpositive r es = Some k"
      using first_nonpositive_total by blast
    then show ?thesis
      using iff [of r k] handleDecide_selected [OF p e es W k] by auto
  qed
  have second: "{r. 0 \<le> r \<and> r < W \<and> first_nonpositive r es = Some k}
              = {r. 0 \<le> r \<and> r < W \<and> (k = 0 \<or> prefix_weight es k < r) \<and>
                    r \<le> prefix_weight es (Suc k)} \<and>
            {prefix_weight es k <..< prefix_weight es (Suc k)}
              \<subseteq> {r. 0 \<le> r \<and> r < W \<and> first_nonpositive r es = Some k} \<and>
            {r. 0 \<le> r \<and> r < W \<and> first_nonpositive r es = Some k}
              \<subseteq> {prefix_weight es k .. prefix_weight es (Suc k)} \<and>
            prefix_weight es (Suc k) - prefix_weight es k = weight (es ! k) \<and>
            interval_probability W {r. 0 \<le> r \<and> r < W \<and> first_nonpositive r es = Some k}
              = weight (es ! k) / W"
    if klt: "k < length es" for k
  proof -
    let ?S = "{r. 0 \<le> r \<and> r < W \<and> first_nonpositive r es = Some k}"
    have lo: "0 \<le> prefix_weight es k" by (rule prefix_weight_nonneg [OF pe])
    have hi: "prefix_weight es (Suc k) \<le> W" unfolding sum by (rule prefix_weight_le [OF pe])
    have step: "prefix_weight es (Suc k) = prefix_weight es k + weight (es ! k)"
      by (rule prefix_weight_Suc [OF klt])
    have wk: "0 < weight (es ! k)" using pe klt by simp
    have a: "?S = {r. 0 \<le> r \<and> r < W \<and> (k = 0 \<or> prefix_weight es k < r) \<and>
                    r \<le> prefix_weight es (Suc k)}"
      using klt by (simp add: iff)
    have b: "{prefix_weight es k <..< prefix_weight es (Suc k)} \<subseteq> ?S"
      unfolding a using lo hi by auto
    have c: "?S \<subseteq> {prefix_weight es k .. prefix_weight es (Suc k)}"
      unfolding a using lo by (auto simp: prefix_weight_0)
    have "prefix_weight es k < prefix_weight es (Suc k)" using step wk by simp
    from sandwiched_Sup_Inf [OF this b c]
    have "interval_probability W ?S = weight (es ! k) / W"
      using step by (simp add: interval_probability_def)
    with a b c step show ?thesis by simp
  qed
  from first second show ?thesis by blast
qed

theorem weighted_selection_intervals_witness:
  "(\<exists>k<length example_items. first_nonpositive 2 example_items = Some k \<and>
      (\<exists>a b. fst (handleDecide 2 example_state) = Decided (example_items ! k) a b)) \<and>
   {prefix_weight example_items 1 <..< prefix_weight example_items (Suc 1)}
     \<subseteq> {r. 0 \<le> r \<and> r < 4 \<and> first_nonpositive r example_items = Some 1} \<and>
   prefix_weight example_items (Suc 1) - prefix_weight example_items 1
     = weight (example_items ! 1) \<and>
   interval_probability 4 {r. 0 \<le> r \<and> r < 4 \<and> first_nonpositive r example_items = Some 1}
     = 3 / 4"
proof -
  note T = weighted_selection_intervals [OF example_facts]
  have r: "(0::real) \<le> 2 \<and> (2::real) < 4" by simp
  have len: "1 < length example_items" by (simp add: example_items_def)
  have w: "weight (example_items ! 1) = 3" by (simp add: example_items_def)
  from T r have "\<exists>k<length example_items. first_nonpositive 2 example_items = Some k \<and>
      (\<exists>a b. fst (handleDecide 2 example_state) = Decided (example_items ! k) a b)"
    by blast
  moreover from T len have
    "{prefix_weight example_items 1 <..< prefix_weight example_items (Suc 1)}
       \<subseteq> {r. 0 \<le> r \<and> r < 4 \<and> first_nonpositive r example_items = Some 1} \<and>
     prefix_weight example_items (Suc 1) - prefix_weight example_items 1
       = weight (example_items ! 1) \<and>
     interval_probability 4 {r. 0 \<le> r \<and> r < 4 \<and> first_nonpositive r example_items = Some 1}
       = weight (example_items ! 1) / 4"
    by blast
  ultimately show ?thesis using w by simp
qed

section \<open>The loop always selects an item\<close>

text \<open>
  C10. For a registry with a product and an engineering item and only positive weights,
  and every draw \<open>r\<close> in \<open>[0, W)\<close>, the loop ends with a selected item of the
  registry, so \<open>handleDecide\<close> does not take the branch that returns without a
  selection: its outcome is a decision.
\<close>

theorem walk_always_selects:
  assumes p: "product \<in> team ` set (decisionItems s)"
    and e: "engineering \<in> team ` set (decisionItems s)"
    and pos: "\<forall>item\<in>set (decisionItems s). 0 < weight item"
    and W: "W = totalWeight (betterDecision s) (decisionItems s)"
    and r: "0 \<le> r" "r < W"
  shows "(\<exists>item. selectedItem (walk (betterDecision s) W (decisionItems s) (walk_init r))
                   = Some item \<and> item \<in> set (decisionItems s)) \<and>
         fst (handleDecide r s) \<noteq> Silent \<and>
         (\<exists>item a b. fst (handleDecide r s) = Decided item a b)"
proof -
  define es where "es = eligible (betterDecision s) (decisionItems s)"
  note basics = selection_setup [OF p e pos es_def W]
  have ne: "es \<noteq> []" and sum: "W = sum_list (map weight es)" and Wpos: "0 < W"
    using basics by blast+
  have "r \<le> sum_list (map weight es)" using r sum by simp
  with ne obtain k where k: "first_nonpositive r es = Some k"
    using first_nonpositive_total by blast
  then have klt: "k < length es" by (rule first_nonpositive_less)
  have "selectedItem (walk (betterDecision s) W (decisionItems s) (walk_init r))
          = Some (es ! k)"
    unfolding walk_eligible [of "betterDecision s" W "decisionItems s"] es_def [symmetric]
    using walk_selected [of "walk_init r" W es] k by (simp add: walk_init_def)
  moreover have "es ! k \<in> set (decisionItems s)"
    using klt eligible_subset [of "betterDecision s" "decisionItems s"] nth_mem [OF klt]
    unfolding es_def by blast
  moreover from handleDecide_selected [OF p e es_def W k]
  have "\<exists>a b. fst (handleDecide r s) = Decided (es ! k) a b" by simp
  ultimately show ?thesis by auto
qed

theorem walk_always_selects_witness:
  "(\<exists>item. selectedItem (walk (betterDecision example_state) 4 (decisionItems example_state)
                           (walk_init 2)) = Some item \<and>
           item \<in> set (decisionItems example_state)) \<and>
   fst (handleDecide 2 example_state) \<noteq> Silent"
proof -
  have r: "(0::real) \<le> 2" "(2::real) < 4" by simp_all
  from walk_always_selects [OF example_facts(1-3) example_facts(5) r]
  show ?thesis by blast
qed

section \<open>Target rotation\<close>




section \<open>The category check\<close>

text \<open>
  C5. If the registry has no product item or no engineering item, \<open>handleDecide\<close>
  reports \<open>InsufficientItemsError\<close> whatever the filter flag is: it only sets the
  error notification, so there is no selection, and the registry, the rotation, the
  spinning flag and the pending timers are as before.
\<close>

theorem decide_requires_both_teams:
  assumes "product \<notin> team ` set (decisionItems s) \<or> engineering \<notin> team ` set (decisionItems s)"
  shows "handleDecide r (s\<lparr>betterDecision := b\<rparr>)
           = (Failed InsufficientItemsError,
              s\<lparr>betterDecision := b, notification := decide_error_text\<rparr>) \<and>
         decisionItems (snd (handleDecide r (s\<lparr>betterDecision := b\<rparr>))) = decisionItems s \<and>
         rotation (snd (handleDecide r (s\<lparr>betterDecision := b\<rparr>))) = rotation s \<and>
         isSpinning (snd (handleDecide r (s\<lparr>betterDecision := b\<rparr>))) = isSpinning s \<and>
         timers (snd (handleDecide r (s\<lparr>betterDecision := b\<rparr>))) = timers s"
proof -
  have "length (filter (\<lambda>d. team d = product) (decisionItems s)) < 1 \<or>
     int (length (decisionItems s))
       - int (length (filter (\<lambda>d. team d = product) (decisionItems s))) < 1"
    unfolding category_check using assms .
  then have "handleDecide r (s\<lparr>betterDecision := b\<rparr>)
           = (Failed InsufficientItemsError,
              s\<lparr>betterDecision := b, notification := decide_error_text\<rparr>)"
    unfolding handleDecide_def Let_def by simp
  then show ?thesis by simp
qed

theorem decide_requires_both_teams_witness:
  "fst (handleDecide 1 (product_only_state\<lparr>betterDecision := True\<rparr>))
     = Failed InsufficientItemsError \<and>
   fst (handleDecide 1 (product_only_state\<lparr>betterDecision := False\<rparr>))
     = Failed InsufficientItemsError \<and>
   rotation (snd (handleDecide 1 (product_only_state\<lparr>betterDecision := True\<rparr>))) = 0"
proof -
  have h: "product \<notin> team ` set (decisionItems product_only_state) \<or>
           engineering \<notin> team ` set (decisionItems product_only_state)"
    by (simp add: product_only_state_def init_state_def)
  have r: "rotation product_only_state = 0"
    by (simp add: product_only_state_def init_state_def)
  from decide_requires_both_teams [OF h, of 1 True]
    decide_requires_both_teams [OF h, of 1 False] r
  show ?thesis by simp
qed

section \<open>Facts about the segment bounds\<close>

lemma segment_width_nonneg: "0 \<le> q \<Longrightarrow> 0 \<le> fl (fl q * 360)"
  by (intro fl_nonneg mult_nonneg_nonneg) simp_all

lemma segments_props:
  assumes tw: "0 < tw" and pos: "\<forall>item\<in>set es. 0 < weight item"
    and cum: "0 \<le> cum" "fl cum = cum" and k: "k < length es"
  shows "0 \<le> fst (segments tw es cum ! k) \<and>
         fl (fst (segments tw es cum ! k)) = fst (segments tw es cum ! k) \<and>
         fst (segments tw es cum ! k) \<le> snd (segments tw es cum ! k) \<and>
         snd (segments tw es cum ! k)
           = fl (fst (segments tw es cum ! k) + fl (fl (weight (es ! k) / tw) * 360))"
  using pos cum k
proof (induction es arbitrary: cum k)
  case Nil
  then show ?case by simp
next
  case (Cons item rest)
  let ?d = "fl (fl (weight item / tw) * 360)"
  have q: "0 \<le> weight item / tw" using Cons.prems(1) tw by (simp add: less_imp_le)
  have d: "0 \<le> ?d" using q by (rule segment_width_nonneg)
  have "fl cum \<le> fl (cum + ?d)" by (rule fl_mono) (use d in simp)
  then have le: "cum \<le> fl (cum + ?d)" using Cons.prems(3) by simp
  show ?case
  proof (cases k)
    case 0
    with le Cons.prems(2,3) show ?thesis by (simp add: Let_def)
  next
    case (Suc k')
    have 1: "\<forall>item\<in>set rest. 0 < weight item" using Cons.prems(1) by simp
    have 2: "0 \<le> fl (cum + ?d)" using le Cons.prems(2) by linarith
    have 3: "fl (fl (cum + ?d)) = fl (cum + ?d)" by (rule fl_idem)
    have 4: "k' < length rest" using Cons.prems(4) Suc by simp
    from Cons.IH [OF 1 2 3 4] Suc show ?thesis by (simp add: Let_def)
  qed
qed

lemma segments_adjacent:
  "Suc k < length es \<Longrightarrow>
   snd (segments tw es cum ! k) = fst (segments tw es cum ! Suc k)"
proof (induction es arbitrary: cum k)
  case Nil
  then show ?case by simp
next
  case (Cons item rest)
  show ?case
  proof (cases k)
    case 0
    with Cons.prems obtain item' rest' where "rest = item' # rest'"
      by (cases rest) auto
    with 0 show ?thesis by (simp add: Let_def)
  next
    case (Suc k')
    with Cons.prems have "Suc k' < length rest" by simp
    from Cons.IH [OF this] Suc show ?thesis by (simp add: Let_def)
  qed
qed

lemma segments_hd: "es \<noteq> [] \<Longrightarrow> fst (hd (segments tw es cum)) = cum"
  by (cases es) (simp_all add: Let_def)

text \<open>One step of the loop against the exact sum.\<close>

lemma segment_step_upper:
  assumes S: "0 \<le> S" and q: "0 \<le> q"
  shows "fl (S + fl (fl q * 360)) \<le> (S + q * 360) * (1 + 1 / 2 ^ 53) ^ 3"
proof -
  define a :: real where "a = 1 + 1 / 2 ^ 53"
  have a1: "1 \<le> a" by (simp add: a_def)
  have a0: "0 \<le> a" using a1 by simp
  have up: "fl x \<le> x * a" if "0 \<le> x" for x
    using fl_bounds_nonneg [OF that] by (simp add: a_def)
  have fq: "0 \<le> fl q" using q by (rule fl_nonneg)
  have y0: "0 \<le> fl q * 360" using fq by simp
  have d0: "0 \<le> fl (fl q * 360)" using y0 by (rule fl_nonneg)
  have "fl q * 360 \<le> (q * a) * 360" using up [OF q] by simp
  then have "fl q * 360 * a \<le> (q * a) * 360 * a" using a0 by (rule mult_right_mono)
  with up [OF y0] have d: "fl (fl q * 360) \<le> q * 360 * (a * a)" by (simp add: mult_ac)
  have "1 * 1 \<le> a * a" using a1 by (intro mult_mono) simp_all
  then have "S * 1 \<le> S * (a * a)" using S by (intro mult_left_mono) simp_all
  with d have "S + fl (fl q * 360) \<le> (S + q * 360) * (a * a)" by (simp add: distrib_right)
  then have "(S + fl (fl q * 360)) * a \<le> (S + q * 360) * (a * a) * a"
    using a0 by (rule mult_right_mono)
  moreover have "fl (S + fl (fl q * 360)) \<le> (S + fl (fl q * 360)) * a"
    by (rule up) (use S d0 in simp)
  ultimately have "fl (S + fl (fl q * 360)) \<le> (S + q * 360) * (a * a * a)"
    by (simp add: mult_ac)
  then show ?thesis by (simp add: a_def power3_eq_cube mult_ac)
qed

lemma segment_step_lower:
  assumes S: "0 \<le> S" and q: "0 \<le> q"
  shows "(S + q * 360) * (1 - 1 / 2 ^ 53) ^ 3 \<le> fl (S + fl (fl q * 360))"
proof -
  define b :: real where "b = 1 - 1 / 2 ^ 53"
  have b1: "b \<le> 1" by (simp add: b_def)
  have b0: "0 \<le> b" by (simp add: b_def)
  have low: "x * b \<le> fl x" if "0 \<le> x" for x
    using fl_bounds_nonneg [OF that] by (simp add: b_def)
  have fq: "0 \<le> fl q" using q by (rule fl_nonneg)
  have y0: "0 \<le> fl q * 360" using fq by simp
  have d0: "0 \<le> fl (fl q * 360)" using y0 by (rule fl_nonneg)
  have "(q * b) * 360 \<le> fl q * 360" using low [OF q] by simp
  then have "(q * b) * 360 * b \<le> fl q * 360 * b" using b0 by (rule mult_right_mono)
  with low [OF y0] have d: "q * 360 * (b * b) \<le> fl (fl q * 360)" by (simp add: mult_ac)
  have "b * b \<le> 1 * 1" using b1 b0 by (intro mult_mono) simp_all
  then have "S * (b * b) \<le> S * 1" using S by (intro mult_left_mono) simp_all
  with d have "(S + q * 360) * (b * b) \<le> S + fl (fl q * 360)" by (simp add: distrib_right)
  then have "(S + q * 360) * (b * b) * b \<le> (S + fl (fl q * 360)) * b"
    using b0 by (rule mult_right_mono)
  moreover have "(S + fl (fl q * 360)) * b \<le> fl (S + fl (fl q * 360))"
    by (rule low) (use S d0 in simp)
  ultimately have "(S + q * 360) * (b * b * b) \<le> fl (S + fl (fl q * 360))"
    by (simp add: mult_ac)
  then show ?thesis by (simp add: b_def power3_eq_cube mult_ac)
qed


lemma segments_last_upper:
  assumes tw: "0 < tw" and pos: "\<forall>item\<in>set es. 0 < weight item"
    and ne: "es \<noteq> []" and cum: "0 \<le> cum"
  shows "snd (last (segments tw es cum))
           \<le> (cum + sum_list (map weight es) / tw * 360) * (1 + 1 / 2 ^ 53) ^ (3 * length es)"
  using pos ne cum
proof (induction es arbitrary: cum)
  case Nil
  then show ?case by simp
next
  case (Cons item rest)
  define a :: real where "a = 1 + 1 / 2 ^ 53"
  have a1: "1 \<le> a" by (simp add: a_def)
  let ?q = "weight item / tw"
  let ?c1 = "fl (cum + fl (fl ?q * 360))"
  have q: "0 \<le> ?q" using Cons.prems(1) tw by (simp add: less_imp_le)
  have step: "?c1 \<le> (cum + ?q * 360) * a ^ 3"
    unfolding a_def using Cons.prems(3) q by (rule segment_step_upper)
  show ?case
  proof (cases "rest = []")
    case True
    with step show ?thesis by (simp add: Let_def a_def)
  next
    case False
    let ?R = "sum_list (map weight rest) / tw * 360"
    have posr: "\<forall>item\<in>set rest. 0 < weight item" using Cons.prems(1) by simp
    have c1: "0 \<le> ?c1"
      by (intro fl_nonneg add_nonneg_nonneg Cons.prems(3) segment_width_nonneg q)
    have R: "0 \<le> ?R"
      using posr tw by (intro mult_nonneg_nonneg divide_nonneg_pos sum_list_nonneg) auto
    have an: "0 \<le> a ^ (3 * length rest)" using a1 by simp
    have "1 \<le> a ^ 3" using a1 by (rule one_le_power)
    then have "?R * 1 \<le> ?R * a ^ 3" using R by (intro mult_left_mono) simp_all
    with step have "?c1 + ?R \<le> (cum + ?q * 360 + ?R) * a ^ 3"
      by (simp add: distrib_right)
    then have C: "(?c1 + ?R) * a ^ (3 * length rest)
                 \<le> (cum + ?q * 360 + ?R) * a ^ 3 * a ^ (3 * length rest)"
      using an by (rule mult_right_mono)
    have B: "snd (last (segments tw rest ?c1)) \<le> (?c1 + ?R) * a ^ (3 * length rest)"
      unfolding a_def using posr False c1 by (rule Cons.IH)
    have "segments tw rest ?c1 \<noteq> []"
      using False segments_length [of tw rest ?c1] by auto
    then have A: "last (segments tw (item # rest) cum) = last (segments tw rest ?c1)"
      by (simp add: Let_def)
    have E: "cum + ?q * 360 + ?R = cum + sum_list (map weight (item # rest)) / tw * 360"
      by (simp add: add_divide_distrib distrib_right)
    have F: "a ^ 3 * a ^ (3 * length rest) = a ^ (3 * length (item # rest))"
      by (simp add: power_add [symmetric])
    have "snd (last (segments tw (item # rest) cum)) = snd (last (segments tw rest ?c1))"
      by (simp only: A)
    also note B
    also note C
    also have "(cum + ?q * 360 + ?R) * a ^ 3 * a ^ (3 * length rest)
        = (cum + sum_list (map weight (item # rest)) / tw * 360)
            * a ^ (3 * length (item # rest))"
      by (simp only: mult.assoc F E)
    finally show ?thesis unfolding a_def .
  qed
qed

lemma segments_last_lower:
  assumes tw: "0 < tw" and pos: "\<forall>item\<in>set es. 0 < weight item"
    and ne: "es \<noteq> []" and cum: "0 \<le> cum"
  shows "(cum + sum_list (map weight es) / tw * 360) * (1 - 1 / 2 ^ 53) ^ (3 * length es)
           \<le> snd (last (segments tw es cum))"
  using pos ne cum
proof (induction es arbitrary: cum)
  case Nil
  then show ?case by simp
next
  case (Cons item rest)
  define b :: real where "b = 1 - 1 / 2 ^ 53"
  have b1: "b \<le> 1" by (simp add: b_def)
  have b0: "0 \<le> b" by (simp add: b_def)
  let ?q = "weight item / tw"
  let ?c1 = "fl (cum + fl (fl ?q * 360))"
  have q: "0 \<le> ?q" using Cons.prems(1) tw by (simp add: less_imp_le)
  have step: "(cum + ?q * 360) * b ^ 3 \<le> ?c1"
    unfolding b_def using Cons.prems(3) q by (rule segment_step_lower)
  show ?case
  proof (cases "rest = []")
    case True
    with step show ?thesis by (simp add: Let_def b_def)
  next
    case False
    let ?R = "sum_list (map weight rest) / tw * 360"
    have posr: "\<forall>item\<in>set rest. 0 < weight item" using Cons.prems(1) by simp
    have c1: "0 \<le> ?c1"
      by (intro fl_nonneg add_nonneg_nonneg Cons.prems(3) segment_width_nonneg q)
    have R: "0 \<le> ?R"
      using posr tw by (intro mult_nonneg_nonneg divide_nonneg_pos sum_list_nonneg) auto
    have bn: "0 \<le> b ^ (3 * length rest)" using b0 by simp
    have "b ^ 3 \<le> 1" using b0 b1 by (rule power_le_one)
    then have "?R * b ^ 3 \<le> ?R * 1" using R by (intro mult_left_mono) simp_all
    with step have "(cum + ?q * 360 + ?R) * b ^ 3 \<le> ?c1 + ?R"
      by (simp add: distrib_right)
    then have C: "(cum + ?q * 360 + ?R) * b ^ 3 * b ^ (3 * length rest)
                 \<le> (?c1 + ?R) * b ^ (3 * length rest)"
      using bn by (rule mult_right_mono)
    have B: "(?c1 + ?R) * b ^ (3 * length rest) \<le> snd (last (segments tw rest ?c1))"
      unfolding b_def using posr False c1 by (rule Cons.IH)
    have "segments tw rest ?c1 \<noteq> []"
      using False segments_length [of tw rest ?c1] by auto
    then have A: "last (segments tw (item # rest) cum) = last (segments tw rest ?c1)"
      by (simp add: Let_def)
    have E: "cum + ?q * 360 + ?R = cum + sum_list (map weight (item # rest)) / tw * 360"
      by (simp add: add_divide_distrib distrib_right)
    have F: "b ^ 3 * b ^ (3 * length rest) = b ^ (3 * length (item # rest))"
      by (simp add: power_add [symmetric])
    have "(cum + sum_list (map weight (item # rest)) / tw * 360)
            * b ^ (3 * length (item # rest))
        = (cum + ?q * 360 + ?R) * b ^ 3 * b ^ (3 * length rest)"
      by (simp only: mult.assoc F E)
    also note C
    also note B
    also have "snd (last (segments tw rest ?c1)) = snd (last (segments tw (item # rest) cum))"
      by (simp only: A)
    finally show ?thesis unfolding b_def .
  qed
qed

text \<open>The segments in exact arithmetic, in closed form.\<close>

lemma ideal_segments_length: "length (ideal_segments tw es cum) = length es"
  by (induction es arbitrary: cum) simp_all

lemma ideal_segments_nth:
  "k < length es \<Longrightarrow>
   ideal_segments tw es cum ! k
     = (cum + prefix_weight es k / tw * 360, cum + prefix_weight es (Suc k) / tw * 360)"
proof (induction es arbitrary: cum k)
  case Nil
  then show ?case by simp
next
  case (Cons item rest)
  show ?case
  proof (cases k)
    case 0
    then show ?thesis by (simp add: prefix_weight_0 prefix_weight_Cons)
  next
    case (Suc k')
    with Cons.prems have "k' < length rest" by simp
    from Cons.IH [OF this] Suc show ?thesis
      by (simp add: prefix_weight_Cons add_divide_distrib distrib_right)
  qed
qed

section \<open>The segments cover the circle up to rounding\<close>

text \<open>
  C2 (amended). For a registry with a product and an engineering item and only positive
  weights, the segment bounds that the loop of \<open>handleDecide\<close> assigns to the eligible
  items are laid out in registry order without gaps or overlaps: there is one segment per
  eligible item, the first starts at 0, each segment ends where the next one starts, and
  no segment ends before it starts. The end of a segment is the rounded sum of its start
  and the rounded value of \<open>(weight / W) * 360\<close>; it differs from the exact sum by a
  factor between \<open>(1 - 2^-53)^3\<close> and \<open>(1 + 2^-53)^3\<close>, and the last end differs from
  360 by a factor between \<open>(1 - 2^-53)^(3 n)\<close> and \<open>(1 + 2^-53)^(3 n)\<close> for \<open>n\<close>
  eligible items. In exact arithmetic the widths are \<open>(weight / W) * 360\<close> and the last
  end is 360. The bounds the loop holds when it selects index \<open>k\<close> are the bounds of
  segment \<open>k\<close>.
\<close>

theorem segments_tile_up_to_rounding:
  assumes p: "product \<in> team ` set (decisionItems s)"
    and e: "engineering \<in> team ` set (decisionItems s)"
    and pos: "\<forall>item\<in>set (decisionItems s). 0 < weight item"
    and es: "es = eligible (betterDecision s) (decisionItems s)"
    and W: "W = totalWeight (betterDecision s) (decisionItems s)"
    and segs: "segs = segments W es 0"
    and ideal: "ideal = ideal_segments W es 0"
  shows "segs \<noteq> [] \<and> length segs = length es \<and> fst (hd segs) = 0 \<and>
         (\<forall>k. Suc k < length es \<longrightarrow> snd (segs ! k) = fst (segs ! Suc k)) \<and>
         (\<forall>k<length es.
            fst (segs ! k) \<le> snd (segs ! k) \<and>
            snd (segs ! k) = fl (fst (segs ! k) + fl (fl (weight (es ! k) / W) * 360)) \<and>
            (fst (segs ! k) + weight (es ! k) / W * 360) * (1 - 1 / 2 ^ 53) ^ 3
              \<le> snd (segs ! k) \<and>
            snd (segs ! k)
              \<le> (fst (segs ! k) + weight (es ! k) / W * 360) * (1 + 1 / 2 ^ 53) ^ 3) \<and>
         360 * (1 - 1 / 2 ^ 53) ^ (3 * length es) \<le> snd (last segs) \<and>
         snd (last segs) \<le> 360 * (1 + 1 / 2 ^ 53) ^ (3 * length es) \<and>
         length ideal = length es \<and> fst (hd ideal) = 0 \<and> snd (last ideal) = 360 \<and>
         (\<forall>k. Suc k < length es \<longrightarrow> snd (ideal ! k) = fst (ideal ! Suc k)) \<and>
         (\<forall>k<length es. snd (ideal ! k) - fst (ideal ! k) = weight (es ! k) / W * 360) \<and>
         (\<forall>r k. first_nonpositive r es = Some k \<longrightarrow>
            winningStartDegree
              (walk (betterDecision s) W (decisionItems s) (walk_init r)) = fst (segs ! k) \<and>
            winningEndDegree
              (walk (betterDecision s) W (decisionItems s) (walk_init r)) = snd (segs ! k))"
proof -
  note basics = selection_setup [OF p e pos es W]
  have ne: "es \<noteq> []" and pe: "\<forall>item\<in>set es. 0 < weight item"
    and sum: "W = sum_list (map weight es)" and Wpos: "0 < W"
    using basics by blast+
  have len: "length segs = length es" unfolding segs by (rule segments_length)
  have sne: "segs \<noteq> []" using len ne by auto
  have first: "fst (hd segs) = 0" unfolding segs using ne by (rule segments_hd)
  have adj: "snd (segs ! k) = fst (segs ! Suc k)" if "Suc k < length es" for k
    unfolding segs using that by (rule segments_adjacent)
  have z: "(0::real) \<le> 0" "fl 0 = 0" by (simp_all add: fl_0)
  have each: "fst (segs ! k) \<le> snd (segs ! k) \<and>
            snd (segs ! k) = fl (fst (segs ! k) + fl (fl (weight (es ! k) / W) * 360)) \<and>
            (fst (segs ! k) + weight (es ! k) / W * 360) * (1 - 1 / 2 ^ 53) ^ 3
              \<le> snd (segs ! k) \<and>
            snd (segs ! k)
              \<le> (fst (segs ! k) + weight (es ! k) / W * 360) * (1 + 1 / 2 ^ 53) ^ 3"
    if k: "k < length es" for k
  proof -
    from segments_props [OF Wpos pe z k]
    have s0: "0 \<le> fst (segs ! k)" and le: "fst (segs ! k) \<le> snd (segs ! k)"
      and eq: "snd (segs ! k) = fl (fst (segs ! k) + fl (fl (weight (es ! k) / W) * 360))"
      unfolding segs by simp_all
    have q: "0 \<le> weight (es ! k) / W" using pe k Wpos by (simp add: less_imp_le)
    from segment_step_lower [OF s0 q] segment_step_upper [OF s0 q] le eq
    show ?thesis by simp
  qed
  have "(0 + sum_list (map weight es) / W * 360) * (1 - 1 / 2 ^ 53) ^ (3 * length es)
          \<le> snd (last segs)"
    unfolding segs using Wpos pe ne z(1) by (rule segments_last_lower)
  then have lower: "360 * (1 - 1 / 2 ^ 53) ^ (3 * length es) \<le> snd (last segs)"
    using Wpos sum by simp
  have "snd (last segs)
          \<le> (0 + sum_list (map weight es) / W * 360) * (1 + 1 / 2 ^ 53) ^ (3 * length es)"
    unfolding segs using Wpos pe ne z(1) by (rule segments_last_upper)
  then have upper: "snd (last segs) \<le> 360 * (1 + 1 / 2 ^ 53) ^ (3 * length es)"
    using Wpos sum by simp
  have ilen: "length ideal = length es" unfolding ideal by (rule ideal_segments_length)
  have ine: "ideal \<noteq> []" using ilen ne by auto
  have inth: "ideal ! k = (prefix_weight es k / W * 360, prefix_weight es (Suc k) / W * 360)"
    if "k < length es" for k
    unfolding ideal using ideal_segments_nth [OF that, of W 0] by simp
  have ifirst: "fst (hd ideal) = 0"
    using ne ine inth [of 0] by (simp add: hd_conv_nth prefix_weight_0)
  have "Suc (length es - 1) = length es" using ne by simp
  then have "prefix_weight es (Suc (length es - 1)) = W"
    by (simp add: prefix_weight_all sum)
  then have ilast: "snd (last ideal) = 360"
    using ne ine ilen Wpos inth [of "length es - 1"] by (simp add: last_conv_nth)
  have iadj: "snd (ideal ! k) = fst (ideal ! Suc k)" if "Suc k < length es" for k
    using that inth [of k] inth [of "Suc k"] by simp
  have iwidth: "snd (ideal ! k) - fst (ideal ! k) = weight (es ! k) / W * 360"
    if k: "k < length es" for k
    using inth [OF k] prefix_weight_Suc [OF k]
    by (simp add: add_divide_distrib distrib_right)
  have code: "winningStartDegree
              (walk (betterDecision s) W (decisionItems s) (walk_init r)) = fst (segs ! k) \<and>
            winningEndDegree
              (walk (betterDecision s) W (decisionItems s) (walk_init r)) = snd (segs ! k)"
    if "first_nonpositive r es = Some k" for r k
    unfolding segs walk_eligible [of "betterDecision s" W "decisionItems s"] es [symmetric]
    using walk_bounds [of "walk_init r" es k W] that by (simp add: walk_init_def)
  from sne len first adj each lower upper ilen ifirst ilast iadj iwidth code
  show ?thesis by blast
qed

theorem segments_tile_up_to_rounding_witness:
  "segments 4 example_items 0 = [(0, 90), (90, 360)] \<and>
   fst (hd (segments 4 example_items 0)) = 0 \<and>
   snd (segments 4 example_items 0 ! 0) = fst (segments 4 example_items 0 ! Suc 0) \<and>
   fst (segments 4 example_items 0 ! 1) \<le> snd (segments 4 example_items 0 ! 1) \<and>
   360 * (1 - 1 / 2 ^ 53) ^ (3 * length example_items) \<le> snd (last (segments 4 example_items 0)) \<and>
   snd (last (ideal_segments 4 example_items 0)) = 360"
proof -
  have segs: "segments 4 example_items 0 = segments 4 example_items 0" by simp
  have ideal: "ideal_segments 4 example_items 0 = ideal_segments 4 example_items 0" by simp
  note T = segments_tile_up_to_rounding [OF example_facts segs ideal]
  have len: "Suc 0 < length example_items" "1 < length example_items"
    by (simp_all add: example_items_def)
  from T len have "fst (hd (segments 4 example_items 0)) = 0 \<and>
   snd (segments 4 example_items 0 ! 0) = fst (segments 4 example_items 0 ! Suc 0) \<and>
   fst (segments 4 example_items 0 ! 1) \<le> snd (segments 4 example_items 0 ! 1) \<and>
   360 * (1 - 1 / 2 ^ 53) ^ (3 * length example_items) \<le> snd (last (segments 4 example_items 0)) \<and>
   snd (last (ideal_segments 4 example_items 0)) = 360"
    by blast
  with example_segments show ?thesis by blast
qed

text \<open>
  C2 as stated: the last segment ends at 360 and every width is \<open>(weight / W) * 360\<close>.
  For the weights 1, 4 and 2 the last segment ends at \<open>360 - 2^-44\<close>, which prints as
  359.99999999999994, and the second segment is narrower than the rounded value of
  \<open>(4 / 7) * 360\<close>.
\<close>

theorem segments_rounding_counterexample:
  "snd (last (segments 7 uneven_items 0)) = 360 - 1 / 2 ^ 44 \<and>
   snd (last (segments 7 uneven_items 0)) \<noteq> 360 \<and>
   fst (handleDecide (13 / 2) uneven_state)
     = Decided (uneven_items ! 2) (1130926245712457 / 4398046511104) (360 - 1 / 2 ^ 44) \<and>
   snd (segments 7 uneven_items 0 ! 1) - fst (segments 7 uneven_items 0 ! 1)
     \<noteq> fl (fl (4 / 7) * 360) \<and>
   snd (segments 7 uneven_items 0 ! 1) - fst (segments 7 uneven_items 0 ! 1) \<noteq> 4 / 7 * 360"
  by (simp add: uneven_segments handleDecide_uneven fl_sevenths uneven_roundings)

section \<open>The add operation in closed form\<close>

lemma add_cases:
  "add now label parsed cat s =
     (if trim label = []
      then (Failed ValidationError,
            s\<lparr>decisionText := label,
              weight_st := (case parsed of None \<Rightarrow> 1 | Some n \<Rightarrow> max 1 (of_int n)),
              team_st := cat, notification := add_error_text\<rparr>)
      else (Added,
            s\<lparr>decisionItems := decisionItems s @
                   [\<lparr>id_item = now, decision = trim label,
                     weight = (case parsed of None \<Rightarrow> 1 | Some n \<Rightarrow> max 1 (of_int n)),
                     team = cat\<rparr>],
              decisionText := [], weight_st := 1, team_st := product\<rparr>))"
  by (auto simp: add_def handleAddDecision_def changeDecisionText_def changeWeight_def
      changeTeam_def Let_def max_def split: option.splits)

lemma trim_go_out: "trim (lit ''go out'') = lit ''go out''"
  by (simp add: trim_def isWhiteSpace_def lit_def)

text \<open>
  The guard \<open>currentWeight <= 0\<close> of \<open>handleAddDecision\<close> rejects a negative weight
  cell, but the weight cell is never below 1: it starts at 1, the form stores
  \<open>Math.max(1, ...)\<close>, and the handler resets it to 1.
\<close>

lemma handleAddDecision_negative_cell:
  "weight_st s < 0 \<Longrightarrow> fst (handleAddDecision now s) = Failed ValidationError"
  by (simp add: handleAddDecision_def Let_def)

lemma changeWeight_at_least_one: "1 \<le> weight_st (changeWeight parsed s)"
  by (simp add: changeWeight_def)

lemma run_callback_weight_cell: "weight_st (run_callback cb s) = weight_st s"
  by (cases cb) simp

lemma step_weight_cell:
  "1 \<le> weight_st s \<Longrightarrow> 1 \<le> weight_st (step ev s)"
  by (cases ev)
    (auto simp: add_cases handleRemoveDecision_def handleDecide_def toggleBetterDecision_def
      fire_def run_callback_weight_cell Let_def split: option.splits list.splits)

lemma weight_cell_at_least_one: "1 \<le> weight_st (steps evs init_state)"
proof -
  have "1 \<le> weight_st s \<Longrightarrow> 1 \<le> weight_st (steps evs s)" for s
    by (induction evs arbitrary: s) (simp_all add: step_weight_cell)
  then show ?thesis by (simp add: init_state_def)
qed

section \<open>Weights in the registry are positive integers\<close>

text \<open>
  The hypothesis on the weights in the theorems on the selection is an invariant of the
  registry: \<open>add\<close> only appends items whose weight is an integer from 1 on, and removal
  only drops items.
\<close>

lemma add_weights_integer:
  "\<forall>item\<in>set (decisionItems s). weight item \<in> \<int> \<and> 1 \<le> weight item \<Longrightarrow>
   \<forall>item\<in>set (decisionItems (snd (add now label parsed cat s))).
      weight item \<in> \<int> \<and> 1 \<le> weight item"
  by (auto simp: add_cases max_def split: option.splits)

lemma run_weights_integer_from:
  "\<forall>item\<in>set (decisionItems s). weight item \<in> \<int> \<and> 1 \<le> weight item \<Longrightarrow>
   \<forall>item\<in>set (decisionItems (run ops s)). weight item \<in> \<int> \<and> 1 \<le> weight item"
proof (induction ops arbitrary: s)
  case Nil
  then show ?case by simp
next
  case (Cons x xs)
  have "\<forall>item\<in>set (decisionItems (apply_op x s)). weight item \<in> \<int> \<and> 1 \<le> weight item"
  proof (cases x)
    case (Add now label parsed cat)
    with add_weights_integer [OF Cons.prems] show ?thesis by simp
  next
    case (Remove i)
    with Cons.prems show ?thesis by (simp add: handleRemoveDecision_def)
  qed
  from Cons.IH [OF this] show ?case by simp
qed

lemma run_weights_integer:
  "\<forall>item\<in>set (decisionItems (run ops init_state)). weight item \<in> \<int> \<and> 1 \<le> weight item"
  by (rule run_weights_integer_from) (simp add: init_state_def)

lemma run_weights_positive:
  "\<forall>item\<in>set (decisionItems (run ops init_state)). 0 < weight item"
  using run_weights_integer [of ops] by fastforce

text \<open>
  So for a registry built by adds and removes, whose total weight is at most \<open>2^53\<close>,
  and a value \<open>u\<close> of \<open>Math.random()\<close>, a double in \<open>[0, 1)\<close>, the draw of line 142
  is in \<open>[0, W)\<close>.
\<close>

lemma weights_sum_integer:
  "\<forall>item\<in>set items. weight item \<in> \<int> \<and> 1 \<le> weight item \<Longrightarrow>
   totalWeight bd items \<in> \<int> \<and> 0 \<le> totalWeight bd items"
proof -
  assume a: "\<forall>item\<in>set items. weight item \<in> \<int> \<and> 1 \<le> weight item"
  have "\<forall>item\<in>set es. weight item \<in> \<int> \<and> 1 \<le> weight item \<Longrightarrow>
        sum_list (map weight es) \<in> \<int> \<and> 0 \<le> sum_list (map weight es)" for es
    by (induction es) auto
  moreover have "\<forall>item\<in>set (eligible bd items). weight item \<in> \<int> \<and> 1 \<le> weight item"
    using a eligible_subset [of bd items] by blast
  ultimately show ?thesis by (simp add: totalWeight_eligible)
qed

lemma reachable_draw_in_range:
  assumes W: "W = totalWeight bd (decisionItems (run ops init_state))" "0 < W" "W \<le> 2 ^ 53"
    and u: "0 \<le> u" "u < 1" "fl u = u"
  shows "0 \<le> draw u W \<and> draw u W < W"
proof -
  from weights_sum_integer [OF run_weights_integer, of bd ops] W(1)
  have "W \<in> \<int>" by simp
  then obtain n where n: "W = of_int n" by (auto elim: Ints_cases)
  have "0 \<le> n" "n \<le> 2 ^ 53" using W(2,3) n by simp_all
  then have "fl (of_int n) = of_int n" by (rule fl_of_int)
  then have "fl W = W" using n by simp
  with u W(2) show ?thesis by (intro draw_in_range)
qed

section \<open>Adding an item\<close>

text \<open>
  C4 (amended). \<open>add(label, weight, category)\<close> reports \<open>ValidationError\<close> and leaves
  the registry as it is exactly when the label is empty after trimming white space. The
  weight never makes it fail: the weight field stores
  \<open>Math.max(1, parseInt(value) || 1)\<close>, so a weight that is zero, negative or not a
  number is stored as 1. With a label that is not empty after trimming, \<open>add\<close> appends
  exactly one item, with the trimmed label, the given category and the stored weight. So
  \<open>add("go out", 0, groupA)\<close> appends an item of weight 1, and after
  \<open>add("go out", 5, groupA)\<close> on the empty registry \<open>count()\<close> is 1.
\<close>

theorem add_validates:
  "(trim label = [] \<longrightarrow>
      fst (add now label parsed cat s) = Failed ValidationError \<and>
      notification (snd (add now label parsed cat s)) = add_error_text \<and>
      decisionItems (snd (add now label parsed cat s)) = decisionItems s) \<and>
   (trim label \<noteq> [] \<longrightarrow>
      fst (add now label parsed cat s) = Added \<and>
      decisionItems (snd (add now label parsed cat s)) =
        decisionItems s @
          [\<lparr>id_item = now, decision = trim label,
            weight = (case parsed of None \<Rightarrow> 1 | Some n \<Rightarrow> max 1 (of_int n)),
            team = cat\<rparr>] \<and>
      count (snd (add now label parsed cat s)) = count s + 1) \<and>
   map weight (decisionItems (snd (add now (lit ''go out'') (Some 0) cat s)))
     = map weight (decisionItems s) @ [1] \<and>
   count (snd (add now (lit ''go out'') (Some 5) cat init_state)) = 1"
  by (simp add: add_cases count_def trim_go_out init_state_def) (simp add: lit_def)

theorem add_validates_witness:
  "fst (add 7 (lit ''   '') (Some 5) product init_state) = Failed ValidationError \<and>
   fst (add 7 [160, 8232, 65279] (Some 5) product init_state) = Failed ValidationError \<and>
   decisionItems (snd (add 7 (lit ''go out'') (Some (- 5)) product init_state)) =
     [\<lparr>id_item = 7, decision = lit ''go out'', weight = 1, team = product\<rparr>] \<and>
   decisionItems (snd (add 7 (lit ''go out'') None product init_state)) =
     [\<lparr>id_item = 7, decision = lit ''go out'', weight = 1, team = product\<rparr>] \<and>
   fst (add 7 (lit '' go out '') (Some 5) engineering init_state) = Added \<and>
   decisionItems (snd (add 7 (lit '' go out '') (Some 5) engineering init_state)) =
     [\<lparr>id_item = 7, decision = lit ''go out'', weight = 5, team = engineering\<rparr>]"
proof -
  have t: "trim (lit ''   '') = []" "trim [160, 8232, 65279] = []"
    "trim (lit '' go out '') = lit ''go out''"
    by (simp_all add: trim_def isWhiteSpace_def lit_def)
  from add_validates [of "lit ''   ''" 7 "Some 5" product init_state]
    add_validates [of "[160, 8232, 65279]" 7 "Some 5" product init_state]
    add_validates [of "lit ''go out''" 7 "Some (- 5)" product init_state]
    add_validates [of "lit ''go out''" 7 None product init_state]
    add_validates [of "lit '' go out ''" 7 "Some 5" engineering init_state]
    t trim_go_out
  show ?thesis by (simp add: init_state_def lit_def)
qed

text \<open>
  C4 as stated: \<open>add("go out", 0, groupA)\<close> fails. In the code the weight 0 is
  stored as 1, and the item is appended.
\<close>

theorem add_zero_weight_counterexample:
  "fst (add 7 (lit ''go out'') (Some 0) product init_state) \<noteq> Failed ValidationError \<and>
   fst (add 7 (lit ''go out'') (Some 0) product init_state) = Added \<and>
   decisionItems (snd (add 7 (lit ''go out'') (Some 0) product init_state)) =
     [\<lparr>id_item = 7, decision = lit ''go out'', weight = 1, team = product\<rparr>]"
  by (simp add: add_cases trim_go_out init_state_def) (simp add: lit_def)

section \<open>Identifiers\<close>

lemma add_ids:
  "map id_item (decisionItems (snd (add now label parsed cat s)))
     = map id_item (decisionItems s) @ (if fst (add now label parsed cat s) = Added then [now] else [])"
  by (simp add: add_cases)

lemma remove_ids:
  "map id_item (decisionItems (handleRemoveDecision i s))
     = filter (\<lambda>j. j \<noteq> i) (map id_item (decisionItems s))"
  by (simp add: handleRemoveDecision_def filter_map o_def)

lemma run_distinct:
  "sorted_wrt (<) (add_times ops) \<Longrightarrow>
   distinct (map id_item (decisionItems s)) \<Longrightarrow>
   \<forall>i\<in>set (map id_item (decisionItems s)). \<forall>t\<in>set (add_times ops). i < t \<Longrightarrow>
   distinct (map id_item (decisionItems (run ops s)))"
proof (induction ops arbitrary: s)
  case Nil
  then show ?case by simp
next
  case (Cons x xs)
  show ?case
  proof (cases x)
    case (Add now label parsed cat)
    let ?s' = "snd (add now label parsed cat s)"
    have ids: "set (map id_item (decisionItems ?s')) \<subseteq> insert now (set (map id_item (decisionItems s)))"
      unfolding add_ids by auto
    have fresh: "now \<notin> set (map id_item (decisionItems s))"
      using Cons.prems(3) Add by fastforce
    have 1: "sorted_wrt (<) (add_times xs)" using Cons.prems(1) Add by simp
    have 2: "distinct (map id_item (decisionItems ?s'))"
      unfolding add_ids using Cons.prems(2) fresh by simp
    have 3: "\<forall>i\<in>set (map id_item (decisionItems ?s')). \<forall>t\<in>set (add_times xs). i < t"
    proof (intro ballI)
      fix i t
      assume i: "i \<in> set (map id_item (decisionItems ?s'))" and t: "t \<in> set (add_times xs)"
      from i ids have "i = now \<or> i \<in> set (map id_item (decisionItems s))" by blast
      then show "i < t"
      proof
        assume "i = now"
        with Cons.prems(1) Add t show ?thesis by simp
      next
        assume "i \<in> set (map id_item (decisionItems s))"
        moreover have "t \<in> set (add_times (x # xs))" using Add t by simp
        ultimately show ?thesis using Cons.prems(3) by blast
      qed
    qed
    from Cons.IH [OF 1 2 3] Add show ?thesis by simp
  next
    case (Remove i)
    let ?s' = "handleRemoveDecision i s"
    have 1: "sorted_wrt (<) (add_times xs)" using Cons.prems(1) Remove by simp
    have 2: "distinct (map id_item (decisionItems ?s'))"
      unfolding remove_ids using Cons.prems(2) by simp
    have 3: "\<forall>i\<in>set (map id_item (decisionItems ?s')). \<forall>t\<in>set (add_times xs). i < t"
      unfolding remove_ids using Cons.prems(3) Remove by auto
    from Cons.IH [OF 1 2 3] Remove show ?thesis by simp
  qed
qed

text \<open>
  C7 (amended). The id of a new item is the clock value read by the add. For every
  sequence of add and remove operations in which each add reads a clock value strictly
  greater than the earlier adds did, started on the empty registry, the registry never
  holds two items with the same id, and every successful add assigns an id that no item
  of the registry has.
\<close>

theorem ids_distinct_increasing_clock:
  assumes "sorted_wrt (<) (add_times ops)"
  shows "distinct (map id_item (decisionItems (run ops init_state))) \<and>
         (\<forall>now label parsed cat. (\<forall>t\<in>set (add_times ops). t < now) \<longrightarrow>
            now \<notin> id_item ` set (decisionItems (run ops init_state)) \<and>
            distinct (map id_item
              (decisionItems (snd (add now label parsed cat (run ops init_state))))))"
proof -
  have d: "distinct (map id_item (decisionItems (run ops init_state)))"
    using assms by (rule run_distinct) (simp_all add: init_state_def)
  have "now \<notin> id_item ` set (decisionItems (run ops init_state)) \<and>
            distinct (map id_item
              (decisionItems (snd (add now label parsed cat (run ops init_state)))))"
    if later: "\<forall>t\<in>set (add_times ops). t < now" for now label parsed cat
  proof -
    have run_app: "run (xs @ ys) s = run ys (run xs s)" for xs ys s
      by (induction xs arbitrary: s) simp_all
    have times_app: "add_times (xs @ ys) = add_times xs @ add_times ys" for xs ys
      by (induction xs rule: add_times.induct) simp_all
    have "sorted_wrt (<) (add_times (ops @ [Add now label parsed cat]))"
      using assms later by (simp add: times_app sorted_wrt_append)
    then have dd: "distinct (map id_item (decisionItems (run (ops @ [Add now label parsed cat]) init_state)))"
      by (rule run_distinct) (simp_all add: init_state_def)
    have sub: "set (map id_item (decisionItems (run xs s)))
                 \<subseteq> set (map id_item (decisionItems s)) \<union> set (add_times xs)" for xs s
    proof (induction xs arbitrary: s)
      case Nil
      then show ?case by simp
    next
      case (Cons x xs)
      show ?case
      proof (cases x)
        case (Add n l v c)
        have "set (map id_item (decisionItems (snd (add n l v c s))))
                \<subseteq> insert n (set (map id_item (decisionItems s)))"
          unfolding add_ids by auto
        with Cons.IH [of "snd (add n l v c s)"] Add show ?thesis by auto
      next
        case (Remove i)
        have "set (map id_item (decisionItems (handleRemoveDecision i s)))
                \<subseteq> set (map id_item (decisionItems s))"
          unfolding remove_ids by auto
        with Cons.IH [of "handleRemoveDecision i s"] Remove show ?thesis by auto
      qed
    qed
    have "now \<notin> set (map id_item (decisionItems (run ops init_state)))"
      using sub [of ops init_state] later by (auto simp: init_state_def)
    with dd show ?thesis by (simp add: run_app)
  qed
  with d show ?thesis by blast
qed

theorem ids_distinct_increasing_clock_witness:
  "distinct (map id_item (decisionItems
     (run [Add 1000 (lit ''a'') (Some 1) product, Add 1001 (lit ''b'') (Some 2) engineering, Remove 1000,
           Add 1002 (lit ''c'') (Some 1) product] init_state))) \<and>
   map id_item (decisionItems
     (run [Add 1000 (lit ''a'') (Some 1) product, Add 1001 (lit ''b'') (Some 2) engineering, Remove 1000,
           Add 1002 (lit ''c'') (Some 1) product] init_state)) = [1001, 1002]"
proof -
  have "sorted_wrt (<) (add_times [Add 1000 (lit ''a'') (Some 1) product, Add 1001 (lit ''b'') (Some 2) engineering,
          Remove 1000, Add 1002 (lit ''c'') (Some 1) product])"
    by simp
  from ids_distinct_increasing_clock [OF this]
  have "distinct (map id_item (decisionItems
     (run [Add 1000 (lit ''a'') (Some 1) product, Add 1001 (lit ''b'') (Some 2) engineering, Remove 1000,
           Add 1002 (lit ''c'') (Some 1) product] init_state)))"
    by blast
  moreover have "map id_item (decisionItems
     (run [Add 1000 (lit ''a'') (Some 1) product, Add 1001 (lit ''b'') (Some 2) engineering, Remove 1000,
           Add 1002 (lit ''c'') (Some 1) product] init_state)) = [1001, 1002]"
    by (simp add: add_cases handleRemoveDecision_def init_state_def trim_def isWhiteSpace_def lit_def)
  ultimately show ?thesis by blast
qed

text \<open>
  C7 as stated: two adds that read the same clock value give two items with the same id.
\<close>

theorem same_clock_counterexample:
  "\<not> distinct (map id_item (decisionItems
       (run [Add 1000 (lit ''a'') (Some 1) product, Add 1000 (lit ''b'') (Some 2) engineering] init_state))) \<and>
   map id_item (decisionItems
       (run [Add 1000 (lit ''a'') (Some 1) product, Add 1000 (lit ''b'') (Some 2) engineering] init_state)) = [1000, 1000]"
  by (simp add: add_cases init_state_def trim_def isWhiteSpace_def lit_def)

section \<open>Phrases in the message of the binary variant\<close>

lemma toLowerCase_append: "toLowerCase (xs @ ys) = toLowerCase xs @ toLowerCase ys"
  by (simp add: toLowerCase_def)

lemma toLowerCase_length: "length (toLowerCase xs) = length xs"
  by (simp add: toLowerCase_def)

lemma lower_literals:
  "toLowerCase (lit ''SHOULD'') = lit ''should''"
  "toLowerCase (lit ''SHOULDNT'') = lit ''shouldnt''"
  "toLowerCase (lit ''should'') = lit ''should''"
  "toLowerCase (lit ''shouldnt'') = lit ''shouldnt''"
  "toLowerCase (lit ''should '') = lit ''should ''"
  "toLowerCase (lit ''shouldnt '') = lit ''shouldnt ''"
  "toLowerCase (lit ''The universe has decided: You '') = lit ''the universe has decided: you ''"
  "toLowerCase (lit '' '') = lit '' ''"
  "toLowerCase (lit ''!'') = lit ''!''"
  by code_simp+

text \<open>
  A phrase \<open>pat @ t\<close> inside \<open>pre @ t @ suf\<close> starts at some position \<open>n\<close>; as far as
  the phrase lies inside \<open>pre\<close>, the two agree.
\<close>

lemma sublist_window:
  assumes "sublist (pat @ t) (pre @ t @ suf)"
  shows "\<exists>n. n + length pat \<le> length pre + length suf \<and>
             (\<forall>k. k \<le> length pat \<and> n + k \<le> length pre
                \<longrightarrow> take k (drop n pre) = take k pat)"
proof -
  from assms obtain ps ss where eq: "pre @ t @ suf = ps @ (pat @ t) @ ss"
    unfolding sublist_def by blast
  have "length (pre @ t @ suf) = length (ps @ (pat @ t) @ ss)" using eq by simp
  then have len: "length ps + length pat \<le> length pre + length suf" by simp
  have "take k (drop (length ps) pre) = take k pat"
    if k: "k \<le> length pat" "length ps + k \<le> length pre" for k
  proof -
    have "take k (drop (length ps) (pre @ t @ suf)) = take k (drop (length ps) pre)"
      using k by simp
    moreover have "take k (drop (length ps) (ps @ (pat @ t) @ ss)) = take k pat"
      using k by simp
    ultimately show ?thesis using eq by simp
  qed
  with len show ?thesis by blast
qed

lemma scan_should:
  "list_all (\<lambda>n. take 2 (drop n (lit ''the universe has decided: you should '')) \<noteq> lit ''sh'')
     [0..<30]"
  by code_simp

lemma scan_shouldnt:
  "list_all (\<lambda>n. take 2 (drop n (lit ''the universe has decided: you shouldnt '')) = lit ''sh''
                 \<longrightarrow> n = 30) [0..<34]"
  by code_simp

lemma prefix_lengths:
  "length (lit ''the universe has decided: you should '') = 37"
  "length (lit ''the universe has decided: you shouldnt '') = 39"
  "length (lit ''shouldnt '') = 9"
  "length (lit ''should '') = 7"
  "length (lit ''!'') = 1"
  by (simp_all add: lit_def)

lemma should_message_has_no_shouldnt:
  "\<not> sublist (lit ''shouldnt '' @ t) (lit ''the universe has decided: you should '' @ t @ lit ''!'')"
proof
  let ?pre = "lit ''the universe has decided: you should ''"
  assume "sublist (lit ''shouldnt '' @ t) (?pre @ t @ lit ''!'')"
  from sublist_window [OF this] obtain n
    where n: "n + length (lit ''shouldnt '') \<le> length ?pre + length (lit ''!'')"
      and w: "\<And>k. k \<le> length (lit ''shouldnt '') \<and> n + k \<le> length ?pre \<Longrightarrow>
                take k (drop n ?pre) = take k (lit ''shouldnt '')"
    by blast
  have n30: "n < 30" using n unfolding prefix_lengths by simp
  then have "n \<in> set [0..<30]" by simp
  with scan_should have "take 2 (drop n ?pre) \<noteq> lit ''sh''"
    unfolding list_all_iff by blast
  moreover have "2 \<le> length (lit ''shouldnt '') \<and> n + 2 \<le> length ?pre"
    using n30 unfolding prefix_lengths by simp
  then have "take 2 (drop n ?pre) = take 2 (lit ''shouldnt '')" by (rule w)
  ultimately show False by (simp add: lit_def)
qed

lemma shouldnt_message_has_no_should:
  "\<not> sublist (lit ''should '' @ t) (lit ''the universe has decided: you shouldnt '' @ t @ lit ''!'')"
proof
  let ?pre = "lit ''the universe has decided: you shouldnt ''"
  assume "sublist (lit ''should '' @ t) (?pre @ t @ lit ''!'')"
  from sublist_window [OF this] obtain n
    where n: "n + length (lit ''should '') \<le> length ?pre + length (lit ''!'')"
      and w: "\<And>k. k \<le> length (lit ''should '') \<and> n + k \<le> length ?pre \<Longrightarrow>
                take k (drop n ?pre) = take k (lit ''should '')"
    by blast
  have n34: "n < 34" using n unfolding prefix_lengths by simp
  then have "n \<in> set [0..<34]" by simp
  with scan_shouldnt have "take 2 (drop n ?pre) = lit ''sh'' \<longrightarrow> n = 30"
    unfolding list_all_iff by blast
  moreover have "2 \<le> length (lit ''should '') \<and> n + 2 \<le> length ?pre"
    using n34 unfolding prefix_lengths by simp
  then have "take 2 (drop n ?pre) = take 2 (lit ''should '')" by (rule w)
  ultimately have n: "n = 30" by (simp add: lit_def)
  have "7 \<le> length (lit ''should '') \<and> n + 7 \<le> length ?pre"
    unfolding prefix_lengths n by simp
  then have "take 7 (drop n ?pre) = take 7 (lit ''should '')" by (rule w)
  then show False unfolding n by (simp add: lit_def)
qed

lemma should_message:
  "contains_ci (lit ''should '' @ t) (lit ''The universe has decided: You '' @ toLowerCase (lit ''SHOULD'') @ lit '' '' @ t @ lit ''!'') \<and>
   \<not> contains_ci (lit ''shouldnt '' @ t) (lit ''The universe has decided: You '' @ toLowerCase (lit ''SHOULD'') @ lit '' '' @ t @ lit ''!'')"
proof -
  have "toLowerCase (lit ''The universe has decided: You '' @ toLowerCase (lit ''SHOULD'') @ lit '' '' @ t @ lit ''!'')
        = lit ''the universe has decided: you '' @ toLowerCase (lit ''SHOULD'') @ lit '' '' @ toLowerCase t @ lit ''!''"
    by (simp only: toLowerCase_append lower_literals)
  then have m: "toLowerCase (lit ''The universe has decided: You '' @ toLowerCase (lit ''SHOULD'') @ lit '' '' @ t @ lit ''!'')
        = lit ''the universe has decided: you should '' @ toLowerCase t @ lit ''!''"
    by (simp only: lower_literals) (simp add: lit_def)
  have p1: "toLowerCase (lit ''should '' @ t) = lit ''should '' @ toLowerCase t"
    by (simp only: toLowerCase_append lower_literals)
  have p2: "toLowerCase (lit ''shouldnt '' @ t) = lit ''shouldnt '' @ toLowerCase t"
    by (simp only: toLowerCase_append lower_literals)
  have "lit ''the universe has decided: you should '' @ toLowerCase t @ lit ''!''
      = lit ''the universe has decided: you '' @ (lit ''should '' @ toLowerCase t) @ lit ''!''"
    by (simp add: lit_def)
  then have "sublist (lit ''should '' @ toLowerCase t)
     (lit ''the universe has decided: you should '' @ toLowerCase t @ lit ''!'')"
    unfolding sublist_def by blast
  then show ?thesis
    unfolding contains_ci_def m p1 p2
    using should_message_has_no_shouldnt [of "toLowerCase t"] by blast
qed

lemma shouldnt_message:
  "contains_ci (lit ''shouldnt '' @ t) (lit ''The universe has decided: You '' @ toLowerCase (lit ''SHOULDNT'') @ lit '' '' @ t @ lit ''!'') \<and>
   \<not> contains_ci (lit ''should '' @ t) (lit ''The universe has decided: You '' @ toLowerCase (lit ''SHOULDNT'') @ lit '' '' @ t @ lit ''!'')"
proof -
  have "toLowerCase (lit ''The universe has decided: You '' @ toLowerCase (lit ''SHOULDNT'') @ lit '' '' @ t @ lit ''!'')
        = lit ''the universe has decided: you '' @ toLowerCase (lit ''SHOULDNT'') @ lit '' '' @ toLowerCase t @ lit ''!''"
    by (simp only: toLowerCase_append lower_literals)
  then have m: "toLowerCase (lit ''The universe has decided: You '' @ toLowerCase (lit ''SHOULDNT'') @ lit '' '' @ t @ lit ''!'')
        = lit ''the universe has decided: you shouldnt '' @ toLowerCase t @ lit ''!''"
    by (simp only: lower_literals) (simp add: lit_def)
  have p1: "toLowerCase (lit ''should '' @ t) = lit ''should '' @ toLowerCase t"
    by (simp only: toLowerCase_append lower_literals)
  have p2: "toLowerCase (lit ''shouldnt '' @ t) = lit ''shouldnt '' @ toLowerCase t"
    by (simp only: toLowerCase_append lower_literals)
  have "lit ''the universe has decided: you shouldnt '' @ toLowerCase t @ lit ''!''
      = lit ''the universe has decided: you '' @ (lit ''shouldnt '' @ toLowerCase t) @ lit ''!''"
    by (simp add: lit_def)
  then have "sublist (lit ''shouldnt '' @ toLowerCase t)
     (lit ''the universe has decided: you shouldnt '' @ toLowerCase t @ lit ''!'')"
    unfolding sublist_def by blast
  then show ?thesis
    unfolding contains_ci_def m p1 p2
    using shouldnt_message_has_no_should [of "toLowerCase t"] by blast
qed

section \<open>The binary variant\<close>

text \<open>
  C6. \<open>handleSubmit\<close> reports \<open>ValidationError\<close> when the trimmed topic is empty.
  Otherwise it returns (and shows) a message that contains, letter case ignored, exactly
  one of the phrases \<open>should <topic>\<close> and \<open>shouldnt <topic>\<close>, where \<open><topic>\<close> is
  the trimmed topic: the first one when the draw is below one half, the second one
  otherwise.
\<close>

theorem binary_decision_exactly_one:
  "(trim (inputValue s) = [] \<longrightarrow> fst (handleSubmit u s) = Inl ValidationError) \<and>
   (trim (inputValue s) \<noteq> [] \<longrightarrow>
      (\<exists>m. fst (handleSubmit u s) = Inr m \<and> notification_bin (snd (handleSubmit u s)) = m \<and>
           contains_ci (lit ''should '' @ trim (inputValue s)) m
             \<noteq> contains_ci (lit ''shouldnt '' @ trim (inputValue s)) m \<and>
           (contains_ci (lit ''should '' @ trim (inputValue s)) m \<longleftrightarrow> u < 1 / 2)))"
proof (cases "u < 1 / 2")
  case True
  with should_message [of "trim (inputValue s)"] show ?thesis
    by (simp add: handleSubmit_def Let_def)
next
  case False
  with shouldnt_message [of "trim (inputValue s)"] show ?thesis
    by (simp add: handleSubmit_def Let_def)
qed


theorem binary_decision_exactly_one_witness:
  "fst (handleSubmit (1 / 4) pizza_state)
     = Inr (lit ''The universe has decided: You should eat pizza!'') \<and>
   contains_ci (lit ''should eat pizza'') (lit ''The universe has decided: You should eat pizza!'') \<and>
   \<not> contains_ci (lit ''shouldnt eat pizza'') (lit ''The universe has decided: You should eat pizza!'') \<and>
   fst (handleSubmit (3 / 4) pizza_state)
     = Inr (lit ''The universe has decided: You shouldnt eat pizza!'') \<and>
   contains_ci (lit ''shouldnt eat pizza'') (lit ''The universe has decided: You shouldnt eat pizza!'') \<and>
   \<not> contains_ci (lit ''should eat pizza'') (lit ''The universe has decided: You shouldnt eat pizza!'') \<and>
   fst (handleSubmit (1 / 4) (pizza_state\<lparr>inputValue := [32, 160, 12288]\<rparr>))
     = Inl ValidationError"
proof -
  have t: "trim (inputValue pizza_state) = lit ''eat pizza''"
    "trim (inputValue (pizza_state\<lparr>inputValue := [32, 160, 12288]\<rparr>)) = []"
    by (simp_all add: pizza_state_def trim_def isWhiteSpace_def lit_def)
  have m: "fst (handleSubmit (1 / 4) pizza_state)
     = Inr (lit ''The universe has decided: You should eat pizza!'')"
    "fst (handleSubmit (3 / 4) pizza_state)
     = Inr (lit ''The universe has decided: You shouldnt eat pizza!'')"
    using t by (simp_all add: handleSubmit_def Let_def lower_literals) (simp_all add: lit_def)
  from binary_decision_exactly_one [of pizza_state "1 / 4"]
    binary_decision_exactly_one [of pizza_state "3 / 4"]
    binary_decision_exactly_one [of "pizza_state\<lparr>inputValue := [32, 160, 12288]\<rparr>" "1 / 4"]
    t m
  show ?thesis by (auto simp: lit_def)
qed

section \<open>Timing and the spinning flag\<close>

lemma handleDecide_keeps_isSpinning: "isSpinning (snd (handleDecide r s)) = isSpinning s"
  by (simp add: handleDecide_def Let_def split: option.splits)

lemma handleAddDecision_keeps_isSpinning: "isSpinning (snd (handleAddDecision now s)) = isSpinning s"
  by (simp add: handleAddDecision_def Let_def)

lemma handleRemoveDecision_keeps_isSpinning: "isSpinning (handleRemoveDecision i s) = isSpinning s"
  by (simp add: handleRemoveDecision_def)

lemma run_callback_isSpinning: "isSpinning (run_callback cb s) = False"
  by (cases cb) simp

lemma fire_keeps_isSpinning_False: "isSpinning s = False \<Longrightarrow> isSpinning (fire s) = False"
  by (simp add: fire_def run_callback_isSpinning split: list.splits prod.splits)

lemma step_keeps_isSpinning_False: "isSpinning s = False \<Longrightarrow> isSpinning (step ev s) = False"
  by (cases ev)
    (simp_all add: add_def changeDecisionText_def changeWeight_def changeTeam_def
      handleAddDecision_keeps_isSpinning
      handleRemoveDecision_keeps_isSpinning handleDecide_keeps_isSpinning
      toggleBetterDecision_def fire_keeps_isSpinning_False)

lemma steps_keep_isSpinning_False:
  "isSpinning s = False \<Longrightarrow> isSpinning (steps evs s) = False"
  by (induction evs arbitrary: s) (simp_all add: step_keeps_isSpinning_False)

lemma isSpinning_never_set: "isSpinning (steps evs init_state) = False"
  by (rule steps_keep_isSpinning_False) (simp add: init_state_def)

lemma handleDecide_delay:
  "fst (handleDecide r s) = Decided item a b \<Longrightarrow>
   timers (snd (handleDecide r s)) = timers s @ [(0, StopSpin item)]"
  by (auto simp: handleDecide_def Let_def split: if_splits option.splits)

text \<open>
  C8. The claim asks for a delay of 5 seconds between a successful decision and the
  callback that shows the result, the duration of the wheel's transition. In the code the
  transition of a spinning wheel lasts 5 seconds, but the callback is scheduled with a
  delay of 0 milliseconds: for the concrete registry and the draw 2, the one
  pending timer has delay 0, and when it fires the result message is shown.
\<close>

theorem result_timer_delay_is_zero:
  "timers (snd (handleDecide 2 example_state)) = [(0, StopSpin (example_items ! 1))] \<and>
   fst (hd (timers (snd (handleDecide 2 example_state)))) \<noteq> 5000 \<and>
   wheel_transition (example_state\<lparr>isSpinning := True\<rparr>)
     = ''transform 5s cubic-bezier(0.25, 0.1, 0.25, 1)'' \<and>
   notification (fire (snd (handleDecide 2 example_state))) = lit ''You should refactor!''"
  by (simp add: handleDecide_example wheel_transition_def fire_def example_items_def lit_def)

text \<open>
  C9. The claim asks that starting a decision sets the spinning flag, which disables the
  decide button until the callback clears the flag. In the code no handler sets the flag:
  after a successful decision on the concrete registry the callback is pending, the flag
  is false and the button is enabled, and a second decision goes through and leaves two
  callbacks pending.
\<close>

theorem spinning_flag_never_set:
  "fst (handleDecide 2 example_state) = Decided (example_items ! 1) 90 360 \<and>
   timers (snd (handleDecide 2 example_state)) \<noteq> [] \<and>
   isSpinning (snd (handleDecide 2 example_state)) = False \<and>
   decide_disabled (snd (handleDecide 2 example_state)) = False \<and>
   fst (handleDecide (1 / 2) (snd (handleDecide 2 example_state)))
     = Decided (example_items ! 0) 0 90 \<and>
   length (timers (snd (handleDecide (1 / 2) (snd (handleDecide 2 example_state))))) = 2"
  by (simp add: handleDecide_example decide_disabled_def)
    (simp add: handleDecide_def example_state_def example_items_def init_state_def
      totalWeight_def walk_init_def Let_def fl_values)

end
